theory Spec2Isabelle
  imports Complex_Main "HOL-Library.AList" "HOL-Library.DAList" "HOL-Library.Log_Nat"
begin

section \<open>The city grid of \<open>main.py\<close>\<close>

text \<open>
  \<open>class CityGrid\<close> holds the grid dimensions \<open>n\<close> and \<open>m\<close> (here \<open>n_dim\<close> and \<open>m_dim\<close>), a
  numpy array \<open>grid\<close> of shape \<open>(n, m)\<close> whose entries are \<open>-1\<close> (obstruction), \<open>0\<close> (free)
  or \<open>1\<close> (covered), the list \<open>towers\<close> of placed coordinates, the remaining \<open>budget\<close> and
  the dict \<open>tower_types\<close>, whose values have the keys \<open>'range'\<close> and \<open>'cost'\<close> (here
  \<open>tw_range\<close> and \<open>tw_cost\<close>). The array is modelled by its shape and a function from
  index pairs to entries. An access through a caller-supplied index goes through
  \<open>grid_get\<close>, which writes out numpy's bounds check, its wrap-around of negative
  indices and the exception it raises for an index it rejects; an index that a \<open>range\<close>
  clamped to the shape produces is in bounds and is read directly. A dict keeps its keys distinct and its insertion order: \<open>alist\<close> of
  \<open>HOL-Library.DAList\<close>. Python's integers are \<open>int\<close>.
\<close>

type_synonym cell = "int \<times> int"

datatype error = ValueError | IndexError | OverflowError | KeyError | ZeroDivisionError

record tower_props =
  tw_range :: int
  tw_cost :: int

record city_grid =
  n_dim :: int
  m_dim :: int
  grid :: "cell \<Rightarrow> int"
  towers :: "cell list"
  budget :: int
  tower_types :: "(string, tower_props) alist"

text \<open>The catalog that \<open>__init__\<close> installs (lines 15-19).\<close>

lift_definition default_tower_types :: "(string, tower_props) alist" is
  "[(''small'', \<lparr>tw_range = 1, tw_cost = 15\<rparr>),
    (''medium'', \<lparr>tw_range = 2, tw_cost = 30\<rparr>),
    (''large'', \<lparr>tw_range = 3, tw_cost = 60\<rparr>)]"
  by simp

text \<open>Python's \<open>range(a, b)\<close> over integers.\<close>

definition py_range :: "int \<Rightarrow> int \<Rightarrow> int list" where
  "py_range a b = [a..b - 1]"

text \<open>
  One axis of a numpy index of extent \<open>sz\<close>: \<open>0 \<le> i < sz\<close> is itself, \<open>-sz \<le> i < 0\<close>
  counts from the end, anything else is rejected.
\<close>

definition np_index :: "int \<Rightarrow> int \<Rightarrow> error + int" where
  "np_index sz i =
     (if 0 \<le> i \<and> i < sz then Inr i
      else if - sz \<le> i \<and> i < 0 then Inr (i + sz)
      else Inl IndexError)"

text \<open>
  Before it checks any bound, numpy converts each Python integer of the index to a C
  integer of 64 bits. An integer in \<open>[2^63, 2^64)\<close> does not fit and the conversion raises
  \<open>OverflowError\<close>; an integer of \<open>2^64\<close> or more, or below \<open>-2^63\<close>, is not taken for an
  integer index at all and raises \<open>IndexError\<close>. The result \<open>None\<close> stands for an
  integer that converts.
\<close>

definition conversion_error :: "int \<Rightarrow> error option" where
  "conversion_error i =
     (if 2 ^ 63 \<le> i \<and> i < 2 ^ 64 then Some OverflowError
      else if i < - (2 ^ 63) \<or> 2 ^ 64 \<le> i then Some IndexError
      else None)"

text \<open>
  The exception of \<open>self.grid[x, y]\<close> for an index that is rejected: the indices are
  converted in order, \<open>x\<close> before \<open>y\<close>, and the bounds are checked after both conversions.
\<close>

definition index_failure :: "int \<Rightarrow> int \<Rightarrow> error" where
  "index_failure x y =
     (case conversion_error x of
        Some e \<Rightarrow> e
      | None \<Rightarrow> (case conversion_error y of Some e \<Rightarrow> e | None \<Rightarrow> IndexError))"

text \<open>
  \<open>self.grid[x, y]\<close> for a caller-supplied index. An axis of an array has fewer than \<open>2^63\<close>
  entries, so an index inside \<open>[-sz, sz)\<close> always converts: the entry is read when both
  indices are inside their axes, and the read fails with \<open>index_failure\<close> otherwise.
\<close>

definition grid_get :: "city_grid \<Rightarrow> int \<Rightarrow> int \<Rightarrow> error + int" where
  "grid_get s x y =
     (case np_index (n_dim s) x of
        Inl e \<Rightarrow> Inl (index_failure x y)
      | Inr i \<Rightarrow>
          (case np_index (m_dim s) y of
             Inl e \<Rightarrow> Inl (index_failure x y)
           | Inr j \<Rightarrow> Inr (grid s (i, j))))"

text \<open>
  The cells visited by the two nested \<open>for\<close> loops that \<open>place_tower\<close> (lines 35-41) and
  \<open>calculate_coverage\<close> (lines 80-81) share, in the loops' order. Both clamp the square
  around \<open>(x, y)\<close> to the grid, so every index in it is in bounds.
\<close>

definition window :: "city_grid \<Rightarrow> int \<Rightarrow> int \<Rightarrow> int \<Rightarrow> cell list" where
  "window s x y r =
     concat (map (\<lambda>i. map (\<lambda>j. (i, j))
                        (py_range (max 0 (y - r)) (min (m_dim s) (y + r + 1))))
             (py_range (max 0 (x - r)) (min (n_dim s) (x + r + 1))))"

text \<open>The loop body of lines 42-43.\<close>

definition mark_cell :: "cell \<Rightarrow> (cell \<Rightarrow> int) \<Rightarrow> (cell \<Rightarrow> int)" where
  "mark_cell p g = (if g p \<noteq> - 1 then g(p := 1) else g)"

text \<open>\<open>place_tower\<close> (lines 31-44): the updated object, or the exception raised.\<close>

definition place_tower :: "city_grid \<Rightarrow> int \<Rightarrow> int \<Rightarrow> int \<Rightarrow> error + city_grid" where
  "place_tower s x y r =
     (case grid_get s x y of
        Inl e \<Rightarrow> Inl e
      | Inr v \<Rightarrow>
          if v = - 1 then Inl ValueError
          else Inr (s\<lparr>grid := fold mark_cell (window s x y r) (grid s),
                      towers := towers s @ [(x, y)]\<rparr>))"

text \<open>\<open>calculate_coverage\<close> (lines 78-84): the members of the clamped square that are in
  \<open>uncovered_blocks\<close>.\<close>

definition calculate_coverage :: "city_grid \<Rightarrow> int \<Rightarrow> int \<Rightarrow> int \<Rightarrow> cell set \<Rightarrow> cell set" where
  "calculate_coverage s x y r uncovered_blocks =
     set (filter (\<lambda>p. p \<in> uncovered_blocks) (window s x y r))"

text \<open>All index pairs of the grid in row-major order: \<open>for i in range(n): for j in range(m)\<close>.\<close>

definition all_cells :: "city_grid \<Rightarrow> cell list" where
  "all_cells s =
     concat (map (\<lambda>i. map (\<lambda>j. (i, j)) (py_range 0 (m_dim s))) (py_range 0 (n_dim s)))"

text \<open>The initial \<open>uncovered_blocks\<close> of \<open>place_towers\<close> (lines 47-48).\<close>

definition uncovered_init :: "city_grid \<Rightarrow> cell set" where
  "uncovered_init s = set (filter (\<lambda>p. grid s p = 0) (all_cells s))"

subsection \<open>Vocabulary of the specification\<close>

definition in_bounds :: "city_grid \<Rightarrow> cell \<Rightarrow> bool" where
  "in_bounds s p \<longleftrightarrow> 0 \<le> fst p \<and> fst p < n_dim s \<and> 0 \<le> snd p \<and> snd p < m_dim s"

definition chebyshev :: "cell \<Rightarrow> cell \<Rightarrow> int" where
  "chebyshev p q = max \<bar>fst p - fst q\<bar> \<bar>snd p - snd q\<bar>"

section \<open>The greedy optimizer\<close>

text \<open>\<open>best_choice\<close>: \<open>None\<close> or the tuple \<open>(i, j, tower_type)\<close> of line 67.\<close>

type_synonym choice = "int \<times> int \<times> string"

subsection \<open>Python's true division of integers\<close>

text \<open>
  \<open>coverage / cost\<close> at line 63 divides two Python integers: the result is the double
  (IEEE 754 binary64) nearest to the exact quotient, ties going to the even significand,
  and a zero divisor raises \<open>ZeroDivisionError\<close>. A double is modelled by the rational it
  denotes. \<open>exponent2 q\<close> is the binary exponent of a positive rational (lemma
  \<open>exponent2_bounds\<close>); a double with that exponent is a multiple of
  \<open>2 ^ (exponent - 52)\<close>, and of \<open>2 ^ (-1074)\<close> below the normal range, where the quotient
  may round to zero (lemmas \<open>float_round_tie\<close>, \<open>float_round_underflow\<close> and
  \<open>float_round_tiny\<close>). A quotient of magnitude \<open>2 ^ 1024\<close> or more raises
  \<open>OverflowError\<close> in Python; the dividend here is the size of a set of grid cells and an
  array has fewer than \<open>2 ^ 63\<close> cells, so the quotient never comes near (lemma
  \<open>quotient_below_overflow\<close>) and that case is not part of the model.
\<close>

definition exponent2 :: "rat \<Rightarrow> int" where
  "exponent2 q =
     (let (a, b) = quotient_of q; d = bitlen a - bitlen b
      in if 2 powi d \<le> q then d else d - 1)"

definition round_half_even :: "rat \<Rightarrow> int" where
  "round_half_even x =
     (let f = \<lfloor>x\<rfloor>; d = x - of_int f
      in if d < 1 / 2 then f else if 1 / 2 < d then f + 1 else if even f then f else f + 1)"

definition float_round :: "rat \<Rightarrow> rat" where
  "float_round q =
     (if q = 0 then 0
      else
        let a = \<bar>q\<bar>;
            ulp = 2 powi (max (exponent2 a) (- 1022) - 52);
            m = round_half_even (a / ulp)
        in sgn q * of_int m * ulp)"

text \<open>
  Lines 59-67 for one tower type with range \<open>r\<close> and cost \<open>c\<close>: the scan of the cells in
  row-major order, threading \<open>(best_choice, best_value)\<close>. Only a cell whose grid entry is
  \<open>0\<close> is valued; its value is the double \<open>coverage / cost\<close>, and \<open>value > best_value\<close>
  compares doubles (\<open>best_value\<close> starts as the integer 0).
\<close>

fun scan_cells ::
  "city_grid \<Rightarrow> cell set \<Rightarrow> string \<Rightarrow> int \<Rightarrow> int \<Rightarrow> cell list \<Rightarrow> choice option \<times> rat
     \<Rightarrow> error + choice option \<times> rat" where
  "scan_cells s U tower_type r c [] best = Inr best"
| "scan_cells s U tower_type r c ((i, j) # cells) (best_choice, best_value) =
     (if grid s (i, j) = 0 then
        (if c = 0 then Inl ZeroDivisionError
         else
           let coverage = card (calculate_coverage s i j r U);
               val = float_round (of_nat coverage / of_int c)
           in if val > best_value
              then scan_cells s U tower_type r c cells (Some (i, j, tower_type), val)
              else scan_cells s U tower_type r c cells (best_choice, best_value))
      else scan_cells s U tower_type r c cells (best_choice, best_value))"

text \<open>Lines 54-67: the loop over \<open>self.tower_types.items()\<close>, skipping a type that costs
  more than the remaining budget.\<close>

fun scan_types ::
  "city_grid \<Rightarrow> cell set \<Rightarrow> (string \<times> tower_props) list \<Rightarrow> choice option \<times> rat
     \<Rightarrow> error + choice option \<times> rat" where
  "scan_types s U [] best = Inr best"
| "scan_types s U ((tower_type, properties) # items) best =
     (if budget s < tw_cost properties then scan_types s U items best
      else
        (case scan_cells s U tower_type (tw_range properties) (tw_cost properties)
                (all_cells s) best of
           Inl e \<Rightarrow> Inl e
         | Inr best' \<Rightarrow> scan_types s U items best'))"

text \<open>
  One pass through the \<open>while\<close> of lines 50-76, from its test to the end of its body:
  \<open>Inr None\<close> when the loop is left (the test fails, or \<open>break\<close> at line 70), the exception
  when one is raised, and otherwise the object and the uncovered set after the commit of
  lines 72-76, together with the committed \<open>best_choice\<close>.
\<close>

definition place_towers_iter ::
  "city_grid \<Rightarrow> cell set \<Rightarrow> error + (city_grid \<times> cell set \<times> choice) option" where
  "place_towers_iter s U =
     (if U \<noteq> {} \<and> budget s > 0 then
        (case scan_types s U (DAList.impl_of (tower_types s)) (None, 0) of
           Inl e \<Rightarrow> Inl e
         | Inr (None, _) \<Rightarrow> Inr None
         | Inr (Some (x, y, tower_type), _) \<Rightarrow>
             (case DAList.lookup (tower_types s) tower_type of
                None \<Rightarrow> Inl KeyError
              | Some properties \<Rightarrow>
                  (case place_tower s x y (tw_range properties) of
                     Inl e \<Rightarrow> Inl e
                   | Inr s' \<Rightarrow>
                       Inr (Some (s'\<lparr>budget := budget s' - tw_cost properties\<rparr>,
                                  U - calculate_coverage s' x y (tw_range properties) U,
                                  (x, y, tower_type))))))
      else Inr None)"

subsection \<open>The candidates of one pass, in scan order\<close>

text \<open>
  Every (cell, tower type) pair that one pass values, with its value, in the order of the
  scan: tower types in the order of the dict, then cells in row-major order.
\<close>

definition cell_value :: "city_grid \<Rightarrow> cell set \<Rightarrow> cell \<Rightarrow> tower_props \<Rightarrow> rat" where
  "cell_value s U p properties =
     float_round
       (of_nat (card (calculate_coverage s (fst p) (snd p) (tw_range properties) U))
          / of_int (tw_cost properties))"

definition candidates_of ::
  "city_grid \<Rightarrow> cell set \<Rightarrow> (string \<times> tower_props) list \<Rightarrow> (choice \<times> rat) list" where
  "candidates_of s U items =
     concat (map (\<lambda>(tower_type, properties).
                    map (\<lambda>p. ((fst p, snd p, tower_type), cell_value s U p properties))
                        (filter (\<lambda>p. grid s p = 0) (all_cells s)))
                 (filter (\<lambda>(tower_type, properties). tw_cost properties \<le> budget s) items))"

definition candidates :: "city_grid \<Rightarrow> cell set \<Rightarrow> (choice \<times> rat) list" where
  "candidates s U = candidates_of s U (DAList.impl_of (tower_types s))"

text \<open>The running maximum over a list of valued candidates: a later candidate replaces the
  best one only when its value is strictly greater.\<close>

fun pick :: "(choice \<times> rat) list \<Rightarrow> choice option \<times> rat \<Rightarrow> choice option \<times> rat" where
  "pick [] best = best"
| "pick ((ch, v) # cs) (best_choice, best_value) =
     (if v > best_value then pick cs (Some ch, v) else pick cs (best_choice, best_value))"

definition free_cells :: "city_grid \<Rightarrow> cell set" where
  "free_cells s = {p. in_bounds s p \<and> grid s p = 0}"

text \<open>The cells of one pass that the test of line 61 lets through, in scan order.\<close>

definition candidate_cells :: "city_grid \<Rightarrow> cell list" where
  "candidate_cells s = filter (\<lambda>p. grid s p = 0) (all_cells s)"

text \<open>The cost of a committed choice, as line 74 reads it from the dict, and the total
  spent on a list of choices.\<close>

definition cost_of_choice :: "(string, tower_props) alist \<Rightarrow> choice \<Rightarrow> int" where
  "cost_of_choice tts ch =
     (case DAList.lookup tts (snd (snd ch)) of None \<Rightarrow> 0 | Some properties \<Rightarrow> tw_cost properties)"

definition spent :: "(string, tower_props) alist \<Rightarrow> choice list \<Rightarrow> int" where
  "spent tts chs = sum_list (map (cost_of_choice tts) chs)"

subsection \<open>Three small grids\<close>


definition row5 :: city_grid where
  "row5 = \<lparr>n_dim = 1, m_dim = 5, grid = (\<lambda>p. 0), towers = [], budget = 45,
           tower_types = default_tower_types\<rparr>"

definition block6 :: city_grid where
  "block6 = \<lparr>n_dim = 2, m_dim = 3, grid = (\<lambda>p. if p = (1, 1) then - 1 else 0), towers = [],
             budget = 150, tower_types = default_tower_types\<rparr>"

section \<open>Shortest paths between towers\<close>

text \<open>
  The dict \<open>graph\<close> of \<open>find_shortest_path\<close> maps a tower to the list of its neighbours.
  It is an association list in insertion order; \<open>AList.update\<close> overwrites the value of
  a key that is present and appends a new key, as a dict assignment does.
\<close>

type_synonym graph = "(cell \<times> cell list) list"

text \<open>\<open>is_within_range\<close> (lines 121-126).\<close>

definition is_within_range :: "cell \<Rightarrow> cell \<Rightarrow> int \<Rightarrow> bool" where
  "is_within_range tower1 tower2 r \<longleftrightarrow>
     \<bar>fst tower1 - fst tower2\<bar> \<le> r \<and> \<bar>snd tower1 - snd tower2\<bar> \<le> r"

text \<open>
  \<open>graph[k].append(v)\<close>. Every key used at lines 115-116 is an element of \<open>self.towers\<close>
  and so a key of the dict built at line 111 (lemma \<open>build_graph_keys\<close>); \<open>map_entry\<close>
  leaves the dict alone for an absent key, a case that never occurs.
\<close>

definition graph_append :: "cell \<Rightarrow> cell \<Rightarrow> graph \<Rightarrow> graph" where
  "graph_append k v g = AList.map_entry k (\<lambda>vs. vs @ [v]) g"

text \<open>The body of the inner loop, lines 114-116.\<close>

definition link :: "int \<Rightarrow> cell \<Rightarrow> cell \<Rightarrow> graph \<Rightarrow> graph" where
  "link r tower1 tower2 g =
     (if is_within_range tower1 tower2 r
      then graph_append tower2 tower1 (graph_append tower1 tower2 g)
      else g)"

text \<open>Lines 112-116: each tower against the towers after it in the list.\<close>

fun add_edges :: "int \<Rightarrow> cell list \<Rightarrow> graph \<Rightarrow> graph" where
  "add_edges r [] g = g"
| "add_edges r (tower1 # rest) g = add_edges r rest (fold (link r tower1) rest g)"

text \<open>Lines 111-116.\<close>

definition build_graph :: "cell list \<Rightarrow> int \<Rightarrow> graph" where
  "build_graph ts r = add_edges r ts (fold (\<lambda>tower g. AList.update tower [] g) ts [])"

text \<open>The \<open>for\<close> loop of lines 140-143 over the neighbours of the dequeued node.\<close>

fun visit_neighbors ::
  "cell list \<Rightarrow> cell list \<Rightarrow> cell set \<Rightarrow> (cell \<times> cell list) list
     \<Rightarrow> cell set \<times> (cell \<times> cell list) list" where
  "visit_neighbors path [] visited queue = (visited, queue)"
| "visit_neighbors path (neighbor # nbrs) visited queue =
     (if neighbor \<notin> visited
      then visit_neighbors path nbrs (insert neighbor visited)
             (queue @ [(neighbor, path @ [neighbor])])
      else visit_neighbors path nbrs visited queue)"

text \<open>The nodes that occur in the neighbour lists of a graph.\<close>

definition graph_nodes :: "graph \<Rightarrow> cell set" where
  "graph_nodes g = set (concat (map snd g))"

lemma visit_neighbors_measure:
  "visit_neighbors path nbrs visited queue = (visited', queue') \<Longrightarrow> finite N \<Longrightarrow>
   set nbrs \<subseteq> N \<Longrightarrow>
   card (N - visited') + length queue' = card (N - visited) + length queue"
proof (induction path nbrs visited queue rule: visit_neighbors.induct)
  case (1 path visited queue)
  then show ?case by simp
next
  case (2 path neighbor nbrs visited queue)
  show ?case
  proof (cases "neighbor \<in> visited")
    case True
    with 2 show ?thesis by simp
  next
    case False
    from 2(4,5) have fin: "finite (N - visited)" and mem: "neighbor \<in> N - visited"
      using False by auto
    have eq: "N - insert neighbor visited = (N - visited) - {neighbor}" by auto
    have pos: "0 < card (N - visited)" using fin mem by (auto simp: card_gt_0_iff)
    have "card (N - visited - {neighbor}) = card (N - visited) - 1"
      using mem by (simp add: card_Diff_singleton)
    with pos have "card (N - insert neighbor visited) + 1 = card (N - visited)"
      unfolding eq by simp
    moreover have "card (N - visited') + length queue' =
        card (N - insert neighbor visited) + length (queue @ [(neighbor, path @ [neighbor])])"
      using 2(1)[OF False] 2(3,4,5) False by simp
    ultimately show ?thesis by simp
  qed
qed

text \<open>
  \<open>breadth_first\<close> (lines 128-145), from the test of the \<open>while\<close>: \<open>Inr (Some path)\<close> for a
  returned path, \<open>Inr None\<close> for \<open>return None\<close>, \<open>Inl KeyError\<close> when \<open>graph[current]\<close> is read
  for a node that is not a key. The parameter \<open>end\<close> is \<open>end_tower\<close> here. Each pass
  removes one queue entry and adds one entry per newly visited node, and visited nodes are
  never added again, so the loop ends.
\<close>

function bfs_loop ::
  "graph \<Rightarrow> cell \<Rightarrow> cell set \<Rightarrow> (cell \<times> cell list) list \<Rightarrow> error + cell list option" where
  "bfs_loop g end_tower visited [] = Inr None"
| "bfs_loop g end_tower visited ((current, path) # queue) =
     (if current = end_tower then Inr (Some path)
      else
        (case map_of g current of
           None \<Rightarrow> Inl KeyError
         | Some nbrs \<Rightarrow>
             (case visit_neighbors path nbrs visited queue of
                (visited', queue') \<Rightarrow> bfs_loop g end_tower visited' queue')))"
  by pat_completeness auto
termination
proof (relation "measure (\<lambda>(g, e, visited, queue). card (graph_nodes g - visited) + length queue)")
  show "wf (measure (\<lambda>(g, e, visited, queue). card (graph_nodes g - visited) + length queue))"
    by simp
next
  fix g :: graph and end_tower :: cell and visited :: "cell set" and current :: cell
    and path :: "cell list" and queue :: "(cell \<times> cell list) list" and nbrs visited' queue'
  assume a: "map_of g current = Some nbrs"
    "(visited', queue') = visit_neighbors path nbrs visited queue"
  have sub: "set nbrs \<subseteq> graph_nodes g"
    using map_of_SomeD[OF a(1)] by (force simp: graph_nodes_def)
  have fin: "finite (graph_nodes g)" by (simp add: graph_nodes_def)
  from a(2) have "visit_neighbors path nbrs visited queue = (visited', queue')" by simp
  from visit_neighbors_measure[OF this fin sub]
  show "((g, end_tower, visited', queue'), (g, end_tower, visited, (current, path) # queue))
          \<in> measure (\<lambda>(g, e, visited, queue). card (graph_nodes g - visited) + length queue)"
    by simp
qed

declare bfs_loop.simps [simp del]

text \<open>\<open>breadth_first\<close> (lines 132-133) and \<open>find_shortest_path\<close> (lines 106-119).\<close>

definition breadth_first :: "graph \<Rightarrow> cell \<Rightarrow> cell \<Rightarrow> error + cell list option" where
  "breadth_first g start end_tower = bfs_loop g end_tower {} [(start, [start])]"

definition find_shortest_path ::
  "city_grid \<Rightarrow> cell \<Rightarrow> cell \<Rightarrow> int \<Rightarrow> error + cell list option" where
  "find_shortest_path s start end_tower r =
     breadth_first (build_graph (towers s) r) start end_tower"

subsection \<open>The adjacency graph of the specification\<close>

text \<open>
  Two placements are adjacent when they stand at two different positions of the placement
  list and are within Chebyshev distance \<open>r\<close> of each other. A walk is a non-empty list of
  nodes whose consecutive elements are adjacent; it has one edge less than it has nodes.
\<close>

definition adjacent :: "cell list \<Rightarrow> int \<Rightarrow> cell \<Rightarrow> cell \<Rightarrow> bool" where
  "adjacent ts r a b \<longleftrightarrow>
     (\<exists>i j. i < length ts \<and> j < length ts \<and> i \<noteq> j \<and> ts ! i = a \<and> ts ! j = b) \<and>
     chebyshev a b \<le> r"

fun walk :: "(cell \<Rightarrow> cell \<Rightarrow> bool) \<Rightarrow> cell list \<Rightarrow> bool" where
  "walk E [] \<longleftrightarrow> False"
| "walk E [a] \<longleftrightarrow> True"
| "walk E (a # b # ps) \<longleftrightarrow> E a b \<and> walk E (b # ps)"

definition walk_from_to :: "(cell \<Rightarrow> cell \<Rightarrow> bool) \<Rightarrow> cell \<Rightarrow> cell \<Rightarrow> cell list \<Rightarrow> bool" where
  "walk_from_to E a b ps \<longleftrightarrow> walk E ps \<and> hd ps = a \<and> last ps = b"

text \<open>The neighbours that a graph lists for a node (none for a node that is not a key).\<close>

definition nbrs_of :: "graph \<Rightarrow> cell \<Rightarrow> cell set" where
  "nbrs_of g x = (case map_of g x of None \<Rightarrow> {} | Some vs \<Rightarrow> set vs)"

text \<open>The pairs of list elements taken at an earlier and a later position: the pairs
  \<open>(tower1, tower2)\<close> that lines 112-113 enumerate.\<close>

fun later_pairs :: "cell list \<Rightarrow> (cell \<times> cell) set" where
  "later_pairs [] = {}"
| "later_pairs (t # rest) = Pair t ` set rest \<union> later_pairs rest"

text \<open>The edge relation of a graph, and the invariant of the \<open>while\<close> loop of
  \<open>breadth_first\<close> for a search from \<open>start\<close>: every queued path is a walk from \<open>start\<close> to
  its node; path lengths in the queue are sorted and differ by at most one; the queued
  path of a node other than \<open>start\<close> is a shortest walk to it; every node seen so far is
  still queued (the start with its first entry) or has had all its neighbours visited;
  and every node other than \<open>start\<close> that some walk no longer than the head's path reaches
  has been visited.\<close>

definition edge :: "graph \<Rightarrow> cell \<Rightarrow> cell \<Rightarrow> bool" where
  "edge g x y \<longleftrightarrow> y \<in> nbrs_of g x"

definition bfs_inv :: "graph \<Rightarrow> cell \<Rightarrow> cell set \<Rightarrow> (cell \<times> cell list) list \<Rightarrow> bool" where
  "bfs_inv g start visited queue \<longleftrightarrow>
     (\<forall>(u, p) \<in> set queue. walk_from_to (edge g) start u p) \<and>
     sorted (map (\<lambda>e. length (snd e)) queue) \<and>
     (\<forall>e \<in> set queue. length (snd e) \<le> Suc (length (snd (hd queue)))) \<and>
     (\<forall>(u, p) \<in> set queue. u \<noteq> start \<longrightarrow>
         (\<forall>p'. walk_from_to (edge g) start u p' \<longrightarrow> length p \<le> length p')) \<and>
     (\<forall>u \<in> insert start visited.
         (\<exists>p. (u, p) \<in> set queue \<and> (u = start \<longrightarrow> p = [start])) \<or> nbrs_of g u \<subseteq> visited) \<and>
     (queue \<noteq> [] \<longrightarrow>
        (\<forall>w p'. w \<noteq> start \<and> walk_from_to (edge g) start w p' \<and>
                length p' \<le> length (snd (hd queue)) \<longrightarrow> w \<in> visited))"

text \<open>The three placements of the example in the specification.\<close>

definition three_towers :: city_grid where
  "three_towers = \<lparr>n_dim = 10, m_dim = 10, grid = (\<lambda>p. 0), towers = [(0, 0), (1, 1), (5, 5)],
                   budget = 0, tower_types = default_tower_types\<rparr>"

section \<open>Rounding lemmas\<close>

lemma exponent2_bounds:
  assumes "0 < q"
  shows "2 powi (exponent2 q) \<le> q \<and> q < 2 powi (exponent2 q + 1)"
proof -
  obtain a b where ab: "quotient_of q = (a, b)" by (cases "quotient_of q")
  have b: "0 < b" using quotient_of_denom_pos[OF ab] .
  have q: "q = of_int a / of_int b" using quotient_of_div[OF ab] .
  have a: "0 < a" using assms b unfolding q by (simp add: zero_less_divide_iff)
  let ?la = "bitlen a" and ?lb = "bitlen b"
  from bitlen_bounds[OF a] have a1: "2 ^ nat (?la - 1) \<le> a" and a2: "a < 2 ^ nat ?la" by simp_all
  from bitlen_bounds[OF b] have b1: "2 ^ nat (?lb - 1) \<le> b" and b2: "b < 2 ^ nat ?lb" by simp_all
  have la: "1 \<le> ?la" using a by (simp add: bitlen_alt_def)
  have lb: "1 \<le> ?lb" using b by (simp add: bitlen_alt_def)
  have ra1: "(2::rat) powi (?la - 1) \<le> of_int a"
  proof -
    have "(of_int (2 ^ nat (?la - 1)) :: rat) \<le> of_int a" using a1 by (simp only: of_int_le_iff)
    then show ?thesis using la by (simp add: power_int_def)
  qed
  have ra2: "(of_int a :: rat) < 2 powi ?la"
  proof -
    have "(of_int a :: rat) < of_int (2 ^ nat ?la)" using a2 by (simp only: of_int_less_iff)
    then show ?thesis using la by (simp add: power_int_def)
  qed
  have rb1: "(2::rat) powi (?lb - 1) \<le> of_int b"
  proof -
    have "(of_int (2 ^ nat (?lb - 1)) :: rat) \<le> of_int b" using b1 by (simp only: of_int_le_iff)
    then show ?thesis using lb by (simp add: power_int_def)
  qed
  have rb2: "(of_int b :: rat) < 2 powi ?lb"
  proof -
    have "(of_int b :: rat) < of_int (2 ^ nat ?lb)" using b2 by (simp only: of_int_less_iff)
    then show ?thesis using lb by (simp add: power_int_def)
  qed
  have bpos: "(0::rat) < of_int b" using b by simp
  have low: "(2::rat) powi (?la - ?lb - 1) < q"
  proof -
    have "(2::rat) powi (?la - ?lb - 1) * of_int b < 2 powi (?la - ?lb - 1) * 2 powi ?lb"
      using rb2 by (simp add: zero_less_power_int)
    also have "\<dots> = 2 powi (?la - 1)"
      by (simp add: power_int_add[symmetric])
    also have "\<dots> \<le> of_int a" by (rule ra1)
    finally show ?thesis unfolding q using bpos by (simp add: pos_less_divide_eq)
  qed
  have high: "q < (2::rat) powi (?la - ?lb + 1)"
  proof -
    have "(of_int a :: rat) < 2 powi ?la" by (rule ra2)
    also have "\<dots> = 2 powi (?la - ?lb + 1) * 2 powi (?lb - 1)"
      by (simp add: power_int_add[symmetric])
    also have "\<dots> \<le> 2 powi (?la - ?lb + 1) * of_int b"
      using rb1 by (simp add: zero_less_power_int)
    finally show ?thesis unfolding q using bpos by (simp add: pos_divide_less_eq)
  qed
  show ?thesis
  proof (cases "2 powi (?la - ?lb) \<le> q")
    case True
    then have "exponent2 q = ?la - ?lb" by (simp add: exponent2_def ab)
    with True high show ?thesis by simp
  next
    case False
    then have "exponent2 q = ?la - ?lb - 1" by (simp add: exponent2_def ab)
    with False low show ?thesis by simp
  qed
qed

lemma round_half_even_nearest: "\<bar>of_int (round_half_even x) - x\<bar> \<le> 1 / 2"
proof -
  have "of_int \<lfloor>x\<rfloor> \<le> x" "x < of_int \<lfloor>x\<rfloor> + 1" by linarith+
  then show ?thesis
    unfolding round_half_even_def Let_def by (auto simp: abs_le_iff)
qed

lemma round_half_even_nonneg: "0 \<le> x \<Longrightarrow> 0 \<le> round_half_even x"
proof -
  assume "0 \<le> x"
  then have "0 \<le> \<lfloor>x\<rfloor>" by simp
  then show ?thesis unfolding round_half_even_def Let_def by auto
qed

lemma float_round_pos_imp: "0 < float_round q \<Longrightarrow> 0 < q"
proof (rule ccontr)
  assume p: "0 < float_round q" and "\<not> 0 < q"
  then have q: "q \<le> 0" by simp
  show False
  proof (cases "q = 0")
    case True
    with p show False by (simp add: float_round_def)
  next
    case False
    with q have neg: "q < 0" by simp
    let ?ulp = "(2::rat) powi (max (exponent2 \<bar>q\<bar>) (- 1022) - 52)"
    have u: "0 < ?ulp" by (simp add: zero_less_power_int)
    have "0 \<le> \<bar>q\<bar> / ?ulp" using u by simp
    then have m: "0 \<le> round_half_even (\<bar>q\<bar> / ?ulp)" by (rule round_half_even_nonneg)
    have "float_round q = - (of_int (round_half_even (\<bar>q\<bar> / ?ulp)) * ?ulp)"
      using neg by (simp add: float_round_def Let_def)
    also have "\<dots> \<le> 0" using m u by simp
    finally show False using p by simp
  qed
qed

text \<open>A quotient of at most \<open>2 ^ (-1075)\<close> rounds to zero.\<close>

lemma float_round_underflow:
  assumes "0 \<le> q" "q \<le> 2 powi (- 1075)"
  shows "float_round q = 0"
proof (cases "q = 0")
  case True
  then show ?thesis by (simp add: float_round_def)
next
  case False
  with assms have pos: "0 < q" by simp
  from exponent2_bounds[OF pos] assms(2) have "(2::rat) powi (exponent2 q) \<le> 2 powi (- 1075)"
    by simp
  then have "exponent2 q \<le> - 1075"
    using power_int_strict_increasing[of "- 1075" "exponent2 q" "2::rat"] by force
  then have mx: "max (exponent2 q) (- 1022) = - 1022" by simp
  have "q / 2 powi (- 1074) \<le> 2 powi (- 1075) / 2 powi (- 1074)"
    using assms(2) by (simp add: divide_right_mono)
  also have "\<dots> = (1/2 :: rat)"
    by (simp add: power_int_diff[symmetric])
  finally have half: "q / 2 powi (- 1074) \<le> 1 / 2" .
  have nn: "0 \<le> q / 2 powi (- 1074)" using pos by simp
  have fl: "\<lfloor>q / 2 powi (- 1074)\<rfloor> = 0" using half nn by (simp add: floor_eq_iff) 
  have "round_half_even (q / 2 powi (- 1074)) = 0"
    unfolding round_half_even_def Let_def fl using half by auto
  then show ?thesis
    using pos by (simp add: float_round_def Let_def mx)
qed

text \<open>Doubles tie where the exact quotients differ.\<close>

lemma float_round_tie: "float_round (1 / (2 ^ 54 + 1)) = float_round (1 / 2 ^ 54)"
  by code_simp

text \<open>A quotient that underflows: \<open>1 / 10 ** 400\<close> is \<open>0.0\<close>.\<close>

lemma float_round_tiny: "float_round (1 / 10 ^ 400) = 0"
proof (rule float_round_underflow)
  have p10: "(0::rat) < 10 ^ 400" by (rule zero_less_power) simp
  then show "(0::rat) \<le> 1 / 10 ^ 400" by (intro divide_nonneg_pos) simp_all
  have "(2::rat) ^ 1075 \<le> 2 ^ (3 * 400)" by (rule power_increasing) simp_all
  also have "\<dots> = (2 ^ 3) ^ 400" by (rule power_mult)
  also have "\<dots> \<le> (10::rat) ^ 400" by (rule power_mono) simp_all
  finally have le: "(2::rat) ^ 1075 \<le> 10 ^ 400" .
  have p2: "(0::rat) < 2 ^ 1075" by (rule zero_less_power) simp
  have "(1::rat) / 10 ^ 400 \<le> 1 / 2 ^ 1075"
    by (rule frac_le[OF _ _ p2 le]) simp_all
  also have "(1::rat) / 2 ^ 1075 = 2 powi (- 1075)"
    by (simp only: power_int_minus power_int_numeral inverse_eq_divide)
  finally show "(1::rat) / 10 ^ 400 \<le> 2 powi (- 1075)" .
qed

section \<open>Grid lemmas\<close>

lemma set_py_range: "set (py_range a b) = {i. a \<le> i \<and> i < b}"
  by (auto simp: py_range_def)

lemma in_window_iff:
  "(a, b) \<in> set (window s x y r) \<longleftrightarrow>
     0 \<le> a \<and> a < n_dim s \<and> 0 \<le> b \<and> b < m_dim s \<and> \<bar>a - x\<bar> \<le> r \<and> \<bar>b - y\<bar> \<le> r"
proof -
  have "(a, b) \<in> set (window s x y r) \<longleftrightarrow>
          a \<in> set (py_range (max 0 (x - r)) (min (n_dim s) (x + r + 1))) \<and>
          b \<in> set (py_range (max 0 (y - r)) (min (m_dim s) (y + r + 1)))"
    unfolding window_def by auto
  also have "\<dots> \<longleftrightarrow> 0 \<le> a \<and> a < n_dim s \<and> 0 \<le> b \<and> b < m_dim s \<and> \<bar>a - x\<bar> \<le> r \<and> \<bar>b - y\<bar> \<le> r"
    unfolding set_py_range by (simp only: mem_Collect_eq) linarith
  finally show ?thesis .
qed

lemma set_window:
  "set (window s x y r) = {p. in_bounds s p \<and> chebyshev p (x, y) \<le> r}"
proof (rule set_eqI)
  fix p :: cell
  obtain a b where p: "p = (a, b)" by (cases p)
  show "p \<in> set (window s x y r) \<longleftrightarrow> p \<in> {p. in_bounds s p \<and> chebyshev p (x, y) \<le> r}"
    unfolding p in_window_iff by (auto simp: in_bounds_def chebyshev_def)
qed

lemma set_all_cells: "set (all_cells s) = {p. in_bounds s p}"
  by (auto simp: all_cells_def set_py_range in_bounds_def)

lemma fold_mark_cell:
  "fold mark_cell ps g p = (if p \<in> set ps \<and> g p \<noteq> - 1 then 1 else g p)"
  by (induction ps arbitrary: g) (auto simp: mark_cell_def)


lemma grid_get_in_bounds:
  "in_bounds s (x, y) \<Longrightarrow> grid_get s x y = Inr (grid s (x, y))"
  by (simp add: grid_get_def np_index_def in_bounds_def)

lemma calculate_coverage_eq:
  "calculate_coverage s x y r U = {p \<in> U. in_bounds s p \<and> chebyshev p (x, y) \<le> r}"
  by (auto simp: calculate_coverage_def set_window)

lemma place_tower_in_bounds:
  assumes "in_bounds s (x, y)"
  shows "place_tower s x y r =
           (if grid s (x, y) = - 1 then Inl ValueError
            else Inr (s\<lparr>grid := (\<lambda>p. if in_bounds s p \<and> chebyshev p (x, y) \<le> r \<and> grid s p \<noteq> - 1
                                      then 1 else grid s p),
                        towers := towers s @ [(x, y)]\<rparr>))"
  using assms
  by (auto simp: place_tower_def grid_get_in_bounds fold_mark_cell set_window
           intro!: arg_cong2[where f="\<lambda>g t. s\<lparr>grid := g, towers := t\<rparr>"])

lemma length_py_range: "length (py_range a b) = nat (b - a)"
  by (simp add: py_range_def)

lemma length_all_cells: "length (all_cells s) = nat (n_dim s) * nat (m_dim s)"
  by (simp add: all_cells_def length_concat o_def length_py_range sum_list_triv)

lemma card_coverage_le:
  "card (calculate_coverage s x y r U) \<le> nat (n_dim s) * nat (m_dim s)"
proof -
  have "calculate_coverage s x y r U \<subseteq> set (all_cells s)"
    by (auto simp: calculate_coverage_eq set_all_cells)
  then have "card (calculate_coverage s x y r U) \<le> card (set (all_cells s))"
    by (intro card_mono) simp_all
  also have "\<dots> \<le> length (all_cells s)" by (rule card_length)
  finally show ?thesis by (simp add: length_all_cells)
qed

text \<open>
  The quotient that line 63 rounds stays far below \<open>2 ^ 1024\<close>, where Python's division
  would raise \<open>OverflowError\<close>, for every grid with fewer than \<open>2 ^ 63\<close> cells.
\<close>

lemma quotient_below_overflow:
  assumes "nat (n_dim s) * nat (m_dim s) < 2 ^ 63" and "c \<noteq> 0"
  shows "\<bar>of_nat (card (calculate_coverage s x y r U)) / of_int c :: rat\<bar> < 2 ^ 1024"
proof -
  let ?k = "card (calculate_coverage s x y r U)"
  have k: "?k < 2 ^ 63" using card_coverage_le[of s x y r U] assms(1) by simp
  have c: "(1::rat) \<le> \<bar>of_int c\<bar>" using assms(2) by (simp flip: of_int_abs)
  have "\<bar>of_nat ?k / of_int c :: rat\<bar> = of_nat ?k / \<bar>of_int c\<bar>" by simp
  also have "\<dots> \<le> of_nat ?k"
  proof -
    have "(of_nat ?k :: rat) / \<bar>of_int c\<bar> \<le> of_nat ?k / 1"
      by (rule divide_left_mono) (use c in simp_all)
    then show ?thesis by simp
  qed
  also have "\<dots> < (2::rat) ^ 63" using k by (metis of_nat_less_iff of_nat_numeral of_nat_power)
  also have "\<dots> < 2 ^ 1024" by simp
  finally show ?thesis .
qed

section \<open>Scan lemmas\<close>

lemma pick_append: "pick (xs @ ys) best = pick ys (pick xs best)"
  by (induction xs best rule: pick.induct) auto

lemma scan_cells_pick:
  "scan_cells s U tt r c cells best = Inr best' \<Longrightarrow>
   best' = pick (map (\<lambda>p. ((fst p, snd p, tt), cell_value s U p \<lparr>tw_range = r, tw_cost = c\<rparr>))
                     (filter (\<lambda>p. grid s p = 0) cells)) best"
  by (induction s U tt r c cells best rule: scan_cells.induct)
     (auto simp: cell_value_def Let_def split: if_splits)

lemma scan_cells_total:
  "c \<noteq> 0 \<Longrightarrow> \<exists>best'. scan_cells s U tt r c cells best = Inr best'"
  by (induction s U tt r c cells best rule: scan_cells.induct) (auto simp: Let_def)

lemma scan_types_pick:
  "scan_types s U items best = Inr best' \<Longrightarrow> best' = pick (candidates_of s U items) best"
proof (induction s U items best rule: scan_types.induct)
  case (1 s U best)
  then show ?case by (simp add: candidates_of_def)
next
  case (2 s U tower_type properties items best)
  show ?case
  proof (cases "budget s < tw_cost properties")
    case True
    with 2 show ?thesis by (simp add: candidates_of_def)
  next
    case False
    with 2(3) obtain b where b: "scan_cells s U tower_type (tw_range properties) (tw_cost properties) (all_cells s) best = Inr b"
      and r: "scan_types s U items b = Inr best'"
      by (auto split: sum.splits)
    have "b = pick (map (\<lambda>p. ((fst p, snd p, tower_type), cell_value s U p properties))
                     (filter (\<lambda>p. grid s p = 0) (all_cells s))) best"
      using scan_cells_pick[OF b] by (simp add: cell_value_def)
    moreover have "best' = pick (candidates_of s U items) b"
      using 2(2)[OF False b r] .
    ultimately show ?thesis using False
      by (simp add: candidates_of_def pick_append)
  qed
qed

lemma scan_types_total:
  "\<forall>(tt, p) \<in> set items. tw_cost p \<noteq> 0 \<Longrightarrow> \<exists>best'. scan_types s U items best = Inr best'"
proof (induction s U items best rule: scan_types.induct)
  case (1 s U best)
  then show ?case by simp
next
  case (2 s U tower_type properties items best)
  then show ?case
    using scan_cells_total[of "tw_cost properties" s U tower_type "tw_range properties" "all_cells s" best]
    by (auto split: sum.splits)
qed

lemma pick_cases:
  "pick cs (bc, bv) = (bc', bv') \<Longrightarrow>
     (bc' = bc \<and> bv' = bv \<and> (\<forall>k < length cs. snd (cs ! k) \<le> bv)) \<or>
     (\<exists>k < length cs. cs ! k = (the bc', bv') \<and> bc' \<noteq> None \<and> bv < bv' \<and>
         (\<forall>k' < k. snd (cs ! k') < bv') \<and> (\<forall>k' < length cs. snd (cs ! k') \<le> bv'))"
proof (induction cs "(bc, bv)" arbitrary: bc bv rule: pick.induct)
  case 1
  then show ?case by simp
next
  case (2 ch v cs best_choice best_value)
  show ?case
  proof (cases "v > best_value")
    case True
    with 2(3) have p: "pick cs (Some ch, v) = (bc', bv')" by simp
    from 2(1)[OF True p] show ?thesis
    proof
      assume a: "bc' = Some ch \<and> bv' = v \<and> (\<forall>k<length cs. snd (cs ! k) \<le> v)"
      then have "(\<forall>k' < length ((ch, v) # cs). snd (((ch, v) # cs) ! k') \<le> bv')"
        by (auto simp: nth_Cons split: nat.splits)
      with a True show ?thesis
        by (intro disjI2 exI[of _ 0]) auto
    next
      assume "\<exists>k<length cs. cs ! k = (the bc', bv') \<and> bc' \<noteq> None \<and> v < bv' \<and>
         (\<forall>k'<k. snd (cs ! k') < bv') \<and> (\<forall>k'<length cs. snd (cs ! k') \<le> bv')"
      then obtain k where k: "k < length cs" "cs ! k = (the bc', bv')" "bc' \<noteq> None" "v < bv'"
         "\<forall>k'<k. snd (cs ! k') < bv'" "\<forall>k'<length cs. snd (cs ! k') \<le> bv'" by blast
      have "\<forall>k' < Suc k. snd (((ch, v) # cs) ! k') < bv'"
        using k(4,5) by (auto simp: nth_Cons split: nat.splits)
      moreover have "\<forall>k' < length ((ch, v) # cs). snd (((ch, v) # cs) ! k') \<le> bv'"
        using k(4,6) by (auto simp: nth_Cons split: nat.splits)
      ultimately show ?thesis using k(1,2,3,4) True
        by (intro disjI2 exI[of _ "Suc k"]) auto
    qed
  next
    case False
    with 2(3) have p: "pick cs (best_choice, best_value) = (bc', bv')" by simp
    from 2(2)[OF False p] show ?thesis
    proof
      assume a: "bc' = best_choice \<and> bv' = best_value \<and> (\<forall>k<length cs. snd (cs ! k) \<le> best_value)"
      then have "(\<forall>k' < length ((ch, v) # cs). snd (((ch, v) # cs) ! k') \<le> best_value)"
        using False by (auto simp: nth_Cons split: nat.splits)
      with a show ?thesis by blast
    next
      assume "\<exists>k<length cs. cs ! k = (the bc', bv') \<and> bc' \<noteq> None \<and> best_value < bv' \<and>
         (\<forall>k'<k. snd (cs ! k') < bv') \<and> (\<forall>k'<length cs. snd (cs ! k') \<le> bv')"
      then obtain k where k: "k < length cs" "cs ! k = (the bc', bv')" "bc' \<noteq> None" "best_value < bv'"
         "\<forall>k'<k. snd (cs ! k') < bv'" "\<forall>k'<length cs. snd (cs ! k') \<le> bv'" by blast
      have "\<forall>k' < Suc k. snd (((ch, v) # cs) ! k') < bv'"
        using k(4,5) False by (auto simp: nth_Cons split: nat.splits)
      moreover have "\<forall>k' < length ((ch, v) # cs). snd (((ch, v) # cs) ! k') \<le> bv'"
        using k(4,6) False by (auto simp: nth_Cons split: nat.splits)
      ultimately show ?thesis using k(1,2,3,4)
        by (intro disjI2 exI[of _ "Suc k"]) auto
    qed
  qed
qed

lemma candidates_of_mem:
  "((x, y, tt), v) \<in> set (candidates_of s U items) \<longleftrightarrow>
     (\<exists>p. (tt, p) \<in> set items \<and> tw_cost p \<le> budget s \<and> in_bounds s (x, y) \<and>
          grid s (x, y) = 0 \<and> v = cell_value s U (x, y) p)"
proof
  assume "((x, y, tt), v) \<in> set (candidates_of s U items)"
  then show "\<exists>p. (tt, p) \<in> set items \<and> tw_cost p \<le> budget s \<and> in_bounds s (x, y) \<and>
          grid s (x, y) = 0 \<and> v = cell_value s U (x, y) p"
    by (auto simp: candidates_of_def set_all_cells)
next
  assume "\<exists>p. (tt, p) \<in> set items \<and> tw_cost p \<le> budget s \<and> in_bounds s (x, y) \<and>
          grid s (x, y) = 0 \<and> v = cell_value s U (x, y) p"
  then obtain p where p: "(tt, p) \<in> set items" "tw_cost p \<le> budget s" "in_bounds s (x, y)"
      "grid s (x, y) = 0" "v = cell_value s U (x, y) p" by blast
  have "((x, y, tt), v) \<in> (\<lambda>q. ((fst q, snd q, tt), cell_value s U q p)) ` {q. in_bounds s q \<and> grid s q = 0}"
    using p(3,4,5) by force
  with p(1,2) show "((x, y, tt), v) \<in> set (candidates_of s U items)"
    unfolding candidates_of_def by (auto simp: set_all_cells intro!: bexI[of _ "(tt, p)"])
qed

lemma cell_value_pos:
  assumes "0 < cell_value s U p props"
  shows "0 < tw_cost props \<and> calculate_coverage s (fst p) (snd p) (tw_range props) U \<noteq> {}"
proof -
  have fin: "finite (calculate_coverage s (fst p) (snd p) (tw_range props) U)"
    by (simp add: calculate_coverage_def)
  from float_round_pos_imp[OF assms[unfolded cell_value_def]]
  show ?thesis
    using fin by (auto simp: zero_less_divide_iff card_gt_0_iff)
qed

lemma lookup_impl_of:
  "(k, v) \<in> set (DAList.impl_of al) \<Longrightarrow> DAList.lookup al k = Some v"
  by (simp add: DAList.lookup.rep_eq)

lemma scan_types_choice:
  assumes "scan_types s U (DAList.impl_of (tower_types s)) (None, 0) = Inr (Some (x, y, tt), bv)"
  shows "\<exists>p. DAList.lookup (tower_types s) tt = Some p \<and> tw_cost p \<le> budget s \<and> 0 < tw_cost p \<and>
             in_bounds s (x, y) \<and> grid s (x, y) = 0 \<and> bv = cell_value s U (x, y) p \<and>
             calculate_coverage s x y (tw_range p) U \<noteq> {}"
proof -
  have "(Some (x, y, tt), bv) = pick (candidates s U) (None, 0)"
    using scan_types_pick[OF assms] by (simp add: candidates_def)
  from pick_cases[OF this[symmetric]]
  obtain k where k: "k < length (candidates s U)" "candidates s U ! k = ((x, y, tt), bv)" "0 < bv"
    by auto
  then have "((x, y, tt), bv) \<in> set (candidates s U)"
    by (metis nth_mem)
  then obtain p where p: "(tt, p) \<in> set (DAList.impl_of (tower_types s))" "tw_cost p \<le> budget s"
      "in_bounds s (x, y)" "grid s (x, y) = 0" "bv = cell_value s U (x, y) p"
    unfolding candidates_def candidates_of_mem by blast
  from k(3) p(5) have "0 < cell_value s U (x, y) p" by simp
  from cell_value_pos[OF this]
  have "0 < tw_cost p \<and> calculate_coverage s x y (tw_range p) U \<noteq> {}" by simp
  with p lookup_impl_of[OF p(1)] show ?thesis by blast
qed

text \<open>What a committing pass does.\<close>

lemma place_towers_iter_Some:
  assumes "place_towers_iter s U = Inr (Some (s', U', (x, y, tt)))"
  shows "\<exists>p. DAList.lookup (tower_types s) tt = Some p \<and> 0 < tw_cost p \<and> tw_cost p \<le> budget s \<and>
             in_bounds s (x, y) \<and> grid s (x, y) = 0 \<and>
             calculate_coverage s x y (tw_range p) U \<noteq> {} \<and>
             place_tower s x y (tw_range p) = Inr (s'\<lparr>budget := budget s\<rparr>) \<and>
             budget s' = budget s - tw_cost p \<and>
             U' = U - calculate_coverage s x y (tw_range p) U"
proof -
  from assms obtain bv where
    sc: "scan_types s U (DAList.impl_of (tower_types s)) (None, 0) = Inr (Some (x, y, tt), bv)"
    by (auto simp: place_towers_iter_def split: if_splits sum.splits option.splits prod.splits)
  from scan_types_choice[OF sc] obtain p where
    p: "DAList.lookup (tower_types s) tt = Some p" "tw_cost p \<le> budget s" "0 < tw_cost p"
       "in_bounds s (x, y)" "grid s (x, y) = 0" "calculate_coverage s x y (tw_range p) U \<noteq> {}"
    by blast
  from assms sc p(1) obtain s1 where
    s1: "place_tower s x y (tw_range p) = Inr s1"
        "s' = s1\<lparr>budget := budget s1 - tw_cost p\<rparr>"
        "U' = U - calculate_coverage s1 x y (tw_range p) U"
    by (auto simp: place_towers_iter_def split: if_splits sum.splits)
  from s1(1) p(4,5) have s1_eq: "s1 = s\<lparr>grid := grid s1, towers := towers s @ [(x, y)]\<rparr>"
    by (auto simp: place_tower_in_bounds)
  then have same: "budget s1 = budget s" "n_dim s1 = n_dim s" "m_dim s1 = m_dim s"
    by (metis (no_types) city_grid.select_convs city_grid.surjective city_grid.update_convs)+
  have cov: "calculate_coverage s1 x y (tw_range p) U = calculate_coverage s x y (tw_range p) U"
    by (simp add: calculate_coverage_eq in_bounds_def same)
  have "s'\<lparr>budget := budget s\<rparr> = s1" using s1(2) same by simp
  with p s1 same cov show ?thesis by auto
qed

section \<open>The optimizer loop\<close>

text \<open>
  \<open>place_towers\<close> (lines 46-76). The method returns nothing and leaves its result in the
  object; the model returns the final object and, beside it, the list of the committed
  choices in commit order (a history of the run: the object itself only keeps the
  coordinates, in \<open>towers\<close>). Every committing pass lowers the budget by a positive cost,
  which is why the loop ends.
\<close>

function place_towers_loop :: "city_grid \<Rightarrow> cell set \<Rightarrow> error + city_grid \<times> choice list" where
  "place_towers_loop s U =
     (case place_towers_iter s U of
        Inl e \<Rightarrow> Inl e
      | Inr None \<Rightarrow> Inr (s, [])
      | Inr (Some (s', U', ch)) \<Rightarrow>
          (case place_towers_loop s' U' of
             Inl e \<Rightarrow> Inl e
           | Inr (final, chs) \<Rightarrow> Inr (final, ch # chs)))"
  by pat_completeness auto
termination
proof (relation "measure (\<lambda>(s, U). nat (budget s))")
  show "wf (measure (\<lambda>(s, U). nat (budget s)))" by simp
next
  fix s :: city_grid and U :: "cell set" and x2 x2a s' y U' ch
  assume "place_towers_iter s U = Inr x2" "x2 = Some x2a" "(s', y) = x2a" "(U', ch) = y"
  then have it: "place_towers_iter s U = Inr (Some (s', U', ch))" by simp
  obtain x y' tt where ch: "ch = (x, y', tt)" by (cases ch)
  from place_towers_iter_Some[OF it[unfolded ch]]
  have "budget s' < budget s \<and> 0 < budget s" by auto
  then show "((s', U'), (s, U)) \<in> measure (\<lambda>(s, U). nat (budget s))" by simp
qed

declare place_towers_loop.simps [simp del]

definition place_towers :: "city_grid \<Rightarrow> error + city_grid \<times> choice list" where
  "place_towers s = place_towers_loop s (uncovered_init s)"

text \<open>The cell of a choice.\<close>

definition choice_cell :: "choice \<Rightarrow> cell" where
  "choice_cell ch = (fst ch, fst (snd ch))"

text \<open>The object, the uncovered set and the choices committed so far, each time the run of
  \<open>place_towers\<close> on \<open>s0\<close> is at the test of the \<open>while\<close>.\<close>

inductive loop_state :: "city_grid \<Rightarrow> city_grid \<times> cell set \<times> choice list \<Rightarrow> bool"
  for s0 :: city_grid where
  loop_start: "loop_state s0 (s0, uncovered_init s0, [])"
| loop_pass: "loop_state s0 (s, U, chs) \<Longrightarrow> place_towers_iter s U = Inr (Some (s', U', ch))
     \<Longrightarrow> loop_state s0 (s', U', chs @ [ch])"


lemma set_candidate_cells: "set (candidate_cells s) = free_cells s"
  by (auto simp: candidate_cells_def free_cells_def set_all_cells)

lemma chebyshev_self: "chebyshev p p = 0"
  by (simp add: chebyshev_def)

lemma chebyshev_nonneg: "0 \<le> chebyshev p q"
  by (simp add: chebyshev_def)

text \<open>Every field of the object after a committing pass.\<close>

lemma place_towers_iter_fields:
  assumes "place_towers_iter s U = Inr (Some (s', U', (x, y, tt)))"
  obtains p where
    "DAList.lookup (tower_types s) tt = Some p" "0 < tw_cost p" "tw_cost p \<le> budget s"
    "in_bounds s (x, y)" "grid s (x, y) = 0" "0 \<le> tw_range p"
    "n_dim s' = n_dim s" "m_dim s' = m_dim s" "tower_types s' = tower_types s"
    "towers s' = towers s @ [(x, y)]" "budget s' = budget s - tw_cost p"
    "grid s' = (\<lambda>q. if in_bounds s q \<and> chebyshev q (x, y) \<le> tw_range p \<and> grid s q \<noteq> - 1
                     then 1 else grid s q)"
    "U' = U - {q \<in> U. in_bounds s q \<and> chebyshev q (x, y) \<le> tw_range p}"
    "place_tower s x y (tw_range p) = Inr (s'\<lparr>budget := budget s\<rparr>)"
proof -
  from place_towers_iter_Some[OF assms] obtain p where
    p: "DAList.lookup (tower_types s) tt = Some p" "0 < tw_cost p" "tw_cost p \<le> budget s"
       "in_bounds s (x, y)" "grid s (x, y) = 0"
       "calculate_coverage s x y (tw_range p) U \<noteq> {}"
       "place_tower s x y (tw_range p) = Inr (s'\<lparr>budget := budget s\<rparr>)"
       "budget s' = budget s - tw_cost p"
       "U' = U - calculate_coverage s x y (tw_range p) U"
    by blast
  from p(6) obtain q where "chebyshev q (x, y) \<le> tw_range p"
    by (auto simp: calculate_coverage_eq)
  then have r: "0 \<le> tw_range p"
    using chebyshev_nonneg[of q "(x, y)"] by linarith
  let ?g = "\<lambda>q. if in_bounds s q \<and> chebyshev q (x, y) \<le> tw_range p \<and> grid s q \<noteq> - 1
                     then 1 else grid s q"
  from p(7) p(4,5) have eq: "s'\<lparr>budget := budget s\<rparr> = s\<lparr>grid := ?g, towers := towers s @ [(x, y)]\<rparr>"
    by (simp add: place_tower_in_bounds)
  have f1: "n_dim s' = n_dim s" using arg_cong[OF eq, of n_dim] by simp
  have f2: "m_dim s' = m_dim s" using arg_cong[OF eq, of m_dim] by simp
  have f3: "tower_types s' = tower_types s" using arg_cong[OF eq, of tower_types] by simp
  have f4: "towers s' = towers s @ [(x, y)]" using arg_cong[OF eq, of towers] by simp
  have f5: "grid s' = ?g" using arg_cong[OF eq, of grid] by simp
  have u: "U' = U - {q \<in> U. in_bounds s q \<and> chebyshev q (x, y) \<le> tw_range p}"
    unfolding p(9) calculate_coverage_eq by simp
  show ?thesis
    by (rule that[OF p(1,2,3,4,5) r f1 f2 f3 f4 p(8) f5 u p(7)])
qed



section \<open>Claims about the grid\<close>

lemma np_index_mod:
  "np_index sz i = (if - sz \<le> i \<and> i < sz then Inr (i mod sz) else Inl IndexError)"
proof -
  have "i mod sz = i" if "0 \<le> i" "i < sz" using that by simp
  moreover have "i mod sz = i + sz" if "- sz \<le> i" "i < 0"
  proof -
    have "(i + sz) mod sz = i + sz" using that by (intro mod_pos_pos_trivial) simp_all
    then show ?thesis by (metis mod_add_self2)
  qed
  ultimately show ?thesis by (auto simp: np_index_def)
qed

lemma grid_get_cases:
  "grid_get s x y =
     (if - n_dim s \<le> x \<and> x < n_dim s \<and> - m_dim s \<le> y \<and> y < m_dim s
      then Inr (grid s (x mod n_dim s, y mod m_dim s))
      else Inl (index_failure x y))"
  by (simp add: grid_get_def np_index_mod)

lemma index_failure_kind: "index_failure x y = IndexError \<or> index_failure x y = OverflowError"
  by (auto simp: index_failure_def conversion_error_def split: option.splits if_splits)

lemma place_tower_cases:
  "place_tower s x y r =
     (case grid_get s x y of
        Inl e \<Rightarrow> Inl e
      | Inr v \<Rightarrow>
          if v = - 1 then Inl ValueError
          else Inr (s\<lparr>grid := (\<lambda>p. if in_bounds s p \<and> chebyshev p (x, y) \<le> r \<and> grid s p \<noteq> - 1
                                    then 1 else grid s p),
                      towers := towers s @ [(x, y)]\<rparr>))"
proof -
  have "fold mark_cell (window s x y r) (grid s) =
        (\<lambda>p. if in_bounds s p \<and> chebyshev p (x, y) \<le> r \<and> grid s p \<noteq> - 1 then 1 else grid s p)"
    by (rule ext) (simp add: fold_mark_cell set_window)
  then show ?thesis unfolding place_tower_def by (simp only:)
qed

text \<open>
  C7, as stated: \<open>place_tower\<close> fails with the placement error exactly when the target is
  obstructed or out of bounds. It does not: on the row of five free cells the index
  \<open>(-1, 0)\<close> is out of bounds, numpy reads it as the last row, and the call succeeds and
  records the tower \<open>(-1, 0)\<close>; the index \<open>(1, 0)\<close> is out of bounds too and raises
  \<open>IndexError\<close>, not the \<open>ValueError\<close> of line 33.
\<close>

theorem place_tower_out_of_bounds_counterexample:
  "\<not> in_bounds row5 (- 1, 0) \<and>
   (case place_tower row5 (- 1) 0 1 of Inl e \<Rightarrow> False | Inr s' \<Rightarrow> towers s' = [(- 1, 0)]) \<and>
   \<not> in_bounds row5 (1, 0) \<and> place_tower row5 1 0 1 = Inl IndexError"
  by (simp add: in_bounds_def row5_def place_tower_def grid_get_def np_index_def
        index_failure_def conversion_error_def)

text \<open>
  C7, amended: \<open>place_tower\<close> raises the \<open>ValueError\<close> of line 33 exactly when the grid entry
  that numpy reads at the index \<open>(x, y)\<close> is an obstruction: the entry of the cell \<open>(x, y)\<close>
  for a target inside the grid, and for a negative index in \<open>[-n, 0)\<close> or \<open>[-m, 0)\<close> the
  entry counted from the end of that axis, at \<open>(x mod n, y mod m)\<close>. When that entry is not
  an obstruction the call succeeds, appends \<open>(x, y)\<close> to \<open>towers\<close>, sets to 1 every
  in-bounds, non-obstructed cell within Chebyshev distance \<open>r\<close> of \<open>(x, y)\<close> (already
  covered cells included, without error) and leaves every other cell as it was. A target
  outside \<open>[-n, n) \<times> [-m, m)\<close> never raises \<open>ValueError\<close>: the read raises numpy's
  \<open>IndexError\<close> or \<open>OverflowError\<close>.
\<close>

theorem place_tower_spec:
  "(- n_dim s \<le> x \<and> x < n_dim s \<and> - m_dim s \<le> y \<and> y < m_dim s \<longrightarrow>
      (place_tower s x y r = Inl ValueError \<longleftrightarrow> grid s (x mod n_dim s, y mod m_dim s) = - 1) \<and>
      (grid s (x mod n_dim s, y mod m_dim s) \<noteq> - 1 \<longrightarrow>
         (\<exists>s'. place_tower s x y r = Inr s' \<and>
               towers s' = towers s @ [(x, y)] \<and>
               (\<forall>p. grid s' p =
                      (if in_bounds s p \<and> chebyshev p (x, y) \<le> r \<and> grid s p \<noteq> - 1
                       then 1 else grid s p)) \<and>
               n_dim s' = n_dim s \<and> m_dim s' = m_dim s \<and> budget s' = budget s \<and>
               tower_types s' = tower_types s))) \<and>
   (in_bounds s (x, y) \<longrightarrow>
      (place_tower s x y r = Inl ValueError \<longleftrightarrow> grid s (x, y) = - 1)) \<and>
   (\<not> (- n_dim s \<le> x \<and> x < n_dim s \<and> - m_dim s \<le> y \<and> y < m_dim s) \<longrightarrow>
      place_tower s x y r = Inl IndexError \<or> place_tower s x y r = Inl OverflowError)"
proof (intro conjI impI)
  assume rg: "- n_dim s \<le> x \<and> x < n_dim s \<and> - m_dim s \<le> y \<and> y < m_dim s"
  show "place_tower s x y r = Inl ValueError \<longleftrightarrow> grid s (x mod n_dim s, y mod m_dim s) = - 1"
    using rg by (simp add: place_tower_cases grid_get_cases)
next
  assume rg: "- n_dim s \<le> x \<and> x < n_dim s \<and> - m_dim s \<le> y \<and> y < m_dim s"
    and free: "grid s (x mod n_dim s, y mod m_dim s) \<noteq> - 1"
  show "\<exists>s'. place_tower s x y r = Inr s' \<and>
               towers s' = towers s @ [(x, y)] \<and>
               (\<forall>p. grid s' p =
                      (if in_bounds s p \<and> chebyshev p (x, y) \<le> r \<and> grid s p \<noteq> - 1
                       then 1 else grid s p)) \<and>
               n_dim s' = n_dim s \<and> m_dim s' = m_dim s \<and> budget s' = budget s \<and>
               tower_types s' = tower_types s"
    using rg free by (simp add: place_tower_cases grid_get_cases)
next
  assume ib: "in_bounds s (x, y)"
  show "place_tower s x y r = Inl ValueError \<longleftrightarrow> grid s (x, y) = - 1"
    by (simp add: place_tower_in_bounds[OF ib])
next
  assume nr: "\<not> (- n_dim s \<le> x \<and> x < n_dim s \<and> - m_dim s \<le> y \<and> y < m_dim s)"
  have "grid_get s x y = Inl (index_failure x y)"
    by (simp only: grid_get_cases nr if_False)
  then have "place_tower s x y r = Inl (index_failure x y)"
    by (simp add: place_tower_cases)
  with index_failure_kind[of x y]
  show "place_tower s x y r = Inl IndexError \<or> place_tower s x y r = Inl OverflowError"
    by auto
qed

theorem place_tower_spec_witness:
  "place_tower block6 0 0 1 \<noteq> Inl ValueError \<and>
   place_tower block6 1 1 1 = Inl ValueError \<and>
   place_tower block6 (- 1) 1 1 = Inl ValueError \<and>
   (\<exists>s'. place_tower block6 0 0 1 = Inr s' \<and> towers s' = [(0, 0)] \<and>
         grid s' (0, 1) = 1 \<and> grid s' (1, 1) = - 1 \<and> grid s' (0, 2) = 0) \<and>
   (\<exists>s'. place_tower block6 (- 1) 0 1 = Inr s' \<and> towers s' = [(- 1, 0)] \<and>
         grid s' (0, 1) = 1 \<and> grid s' (1, 0) = 0) \<and>
   place_tower block6 2 0 1 = Inl IndexError \<and>
   place_tower block6 (2 ^ 63) 0 1 = Inl OverflowError"
proof -
  have dims: "n_dim block6 = 2" "m_dim block6 = 3" "towers block6 = []"
    by (simp_all add: block6_def)
  have g: "\<And>p. grid block6 p = (if p = (1, 1) then - 1 else 0)" by (simp add: block6_def)
  have c: "chebyshev (0, 1) (0, 0) \<le> 1" "\<not> chebyshev (0, 2) (0, 0) \<le> 1"
    "chebyshev (0, 1) (- 1, 0) \<le> 1" "\<not> chebyshev (1, 0) (- 1, 0) \<le> 1"
    by (simp_all add: chebyshev_def)
  have ib: "in_bounds block6 (0, 1)" "in_bounds block6 (0, 2)" "in_bounds block6 (1, 0)"
    by (simp_all add: in_bounds_def block6_def)
  have 1: "place_tower block6 0 0 1 \<noteq> Inl ValueError"
    using place_tower_spec[of block6 0 0 1] by (simp add: dims g)
  have 2: "place_tower block6 1 1 1 = Inl ValueError"
    using place_tower_spec[of block6 1 1 1] by (simp add: dims g)
  have 3: "place_tower block6 (- 1) 1 1 = Inl ValueError"
    using place_tower_spec[of block6 "- 1" 1 1] by (simp add: dims g)
  from place_tower_spec[of block6 0 0 1]
  obtain s1 where s1: "place_tower block6 0 0 1 = Inr s1" "towers s1 = towers block6 @ [(0, 0)]"
    "\<forall>p. grid s1 p = (if in_bounds block6 p \<and> chebyshev p (0, 0) \<le> 1 \<and> grid block6 p \<noteq> - 1
                       then 1 else grid block6 p)"
    by (auto simp: dims g)
  have 4: "\<exists>s'. place_tower block6 0 0 1 = Inr s' \<and> towers s' = [(0, 0)] \<and>
         grid s' (0, 1) = 1 \<and> grid s' (1, 1) = - 1 \<and> grid s' (0, 2) = 0"
    using s1 c ib by (intro exI[of _ s1]) (simp add: dims g)
  from place_tower_spec[of block6 "- 1" 0 1]
  obtain s2 where s2: "place_tower block6 (- 1) 0 1 = Inr s2"
    "towers s2 = towers block6 @ [(- 1, 0)]"
    "\<forall>p. grid s2 p = (if in_bounds block6 p \<and> chebyshev p (- 1, 0) \<le> 1 \<and> grid block6 p \<noteq> - 1
                       then 1 else grid block6 p)"
    by (auto simp: dims g)
  have 5: "\<exists>s'. place_tower block6 (- 1) 0 1 = Inr s' \<and> towers s' = [(- 1, 0)] \<and>
         grid s' (0, 1) = 1 \<and> grid s' (1, 0) = 0"
    using s2 c ib by (intro exI[of _ s2]) (simp add: dims g)
  have "place_tower block6 2 0 1 = Inl IndexError \<or> place_tower block6 2 0 1 = Inl OverflowError"
    using place_tower_spec[of block6 2 0 1] by (simp add: dims)
  moreover have "place_tower block6 2 0 1 \<noteq> Inl OverflowError"
    by (simp add: place_tower_cases grid_get_cases dims index_failure_def conversion_error_def)
  ultimately have 6: "place_tower block6 2 0 1 = Inl IndexError" by blast
  have "place_tower block6 (2 ^ 63) 0 1 = Inl IndexError \<or>
        place_tower block6 (2 ^ 63) 0 1 = Inl OverflowError"
    using place_tower_spec[of block6 "2 ^ 63" 0 1] by (simp add: dims)
  moreover have "place_tower block6 (2 ^ 63) 0 1 \<noteq> Inl IndexError"
    by (simp add: place_tower_cases grid_get_cases dims index_failure_def conversion_error_def)
  ultimately have 7: "place_tower block6 (2 ^ 63) 0 1 = Inl OverflowError" by blast
  from 1 2 3 4 5 6 7 show ?thesis by blast
qed

text \<open>
  C4: for an in-bounds, non-obstructed cell \<open>(x, y)\<close>, any range \<open>r\<close> and the uncovered set
  \<open>S\<close> before the commit (the free cells of the grid), \<open>calculate_coverage\<close> returns exactly
  the members of \<open>S\<close> within Chebyshev distance \<open>r\<close> of \<open>(x, y)\<close>, \<open>place_tower\<close> succeeds,
  and \<open>S\<close> without that set is exactly the set of cells that are free in the grid after
  the placement.
\<close>

theorem coverage_matches_placement:
  assumes "in_bounds s (x, y)" and "grid s (x, y) \<noteq> - 1" and "S = free_cells s"
  shows "calculate_coverage s x y r S = {p \<in> S. chebyshev p (x, y) \<le> r} \<and>
         (\<exists>s'. place_tower s x y r = Inr s' \<and>
               S - calculate_coverage s x y r S = free_cells s')"
proof
  show "calculate_coverage s x y r S = {p \<in> S. chebyshev p (x, y) \<le> r}"
    unfolding calculate_coverage_eq assms(3) free_cells_def by auto
next
  let ?s' = "s\<lparr>grid := (\<lambda>p. if in_bounds s p \<and> chebyshev p (x, y) \<le> r \<and> grid s p \<noteq> - 1
                                      then 1 else grid s p),
                        towers := towers s @ [(x, y)]\<rparr>"
  have pt: "place_tower s x y r = Inr ?s'"
    using assms(2) by (simp add: place_tower_in_bounds[OF assms(1)])
  have "S - calculate_coverage s x y r S = free_cells ?s'"
    unfolding calculate_coverage_eq assms(3) free_cells_def
    by (auto simp: in_bounds_def)
  with pt show "\<exists>s'. place_tower s x y r = Inr s' \<and>
               S - calculate_coverage s x y r S = free_cells s'" by blast
qed

theorem coverage_matches_placement_witness:
  "in_bounds block6 (0, 0) \<and> grid block6 (0, 0) \<noteq> - 1 \<and>
   calculate_coverage block6 0 0 1 (free_cells block6) =
     {p \<in> free_cells block6. chebyshev p (0, 0) \<le> 1} \<and>
   (\<exists>s'. place_tower block6 0 0 1 = Inr s' \<and>
         free_cells block6 - calculate_coverage block6 0 0 1 (free_cells block6) = free_cells s')"
proof -
  have ib: "in_bounds block6 (0, 0)" by (simp add: in_bounds_def block6_def)
  have g: "grid block6 (0, 0) \<noteq> - 1" by (simp add: block6_def)
  from coverage_matches_placement[OF ib g refl, of 1] ib g show ?thesis by blast
qed

lemma spent_snoc: "spent tts (chs @ [ch]) = spent tts chs + cost_of_choice tts ch"
  by (simp add: spent_def)

lemma loop_state_shape:
  "loop_state s0 (s, U, chs) \<Longrightarrow>
     n_dim s = n_dim s0 \<and> m_dim s = m_dim s0 \<and> tower_types s = tower_types s0"
proof (induction "(s, U, chs)" arbitrary: s U chs rule: loop_state.induct)
  case loop_start
  then show ?case by simp
next
  case (loop_pass s U chs s' U' ch)
  obtain x y tt where ch: "ch = (x, y, tt)" by (cases ch)
  show ?case
  proof (rule place_towers_iter_fields[OF loop_pass(3)[unfolded ch]])
    fix p
    assume "n_dim s' = n_dim s" "m_dim s' = m_dim s" "tower_types s' = tower_types s"
    then show ?case using loop_pass(2) by simp
  qed
qed

lemma loop_state_in_bounds:
  "loop_state s0 (s, U, chs) \<Longrightarrow> in_bounds s p = in_bounds s0 p"
  using loop_state_shape[of s0 s U chs] by (simp add: in_bounds_def)

lemma loop_state_account:
  "loop_state s0 (s, U, chs) \<Longrightarrow>
     towers s = towers s0 @ map choice_cell chs \<and>
     budget s = budget s0 - spent (tower_types s0) chs"
proof (induction "(s, U, chs)" arbitrary: s U chs rule: loop_state.induct)
  case loop_start
  then show ?case by (simp add: spent_def)
next
  case (loop_pass s U chs s' U' ch)
  obtain x y tt where ch: "ch = (x, y, tt)" by (cases ch)
  have tt: "tower_types s = tower_types s0"
    using loop_state_shape[OF loop_pass(1)] by simp
  show ?case
  proof (rule place_towers_iter_fields[OF loop_pass(3)[unfolded ch]])
    fix p
    assume "DAList.lookup (tower_types s) tt = Some p"
      "towers s' = towers s @ [(x, y)]" "budget s' = budget s - tw_cost p"
    then show ?case using loop_pass(2) tt
      by (simp add: spent_snoc cost_of_choice_def choice_cell_def ch)
  qed
qed

lemma loop_state_budget:
  "loop_state s0 (s, U, chs) \<Longrightarrow> 0 \<le> budget s0 \<Longrightarrow> 0 \<le> budget s"
proof (induction "(s, U, chs)" arbitrary: s U chs rule: loop_state.induct)
  case loop_start
  then show ?case by simp
next
  case (loop_pass s U chs s' U' ch)
  obtain x y tt where ch: "ch = (x, y, tt)" by (cases ch)
  show ?case
  proof (rule place_towers_iter_fields[OF loop_pass(3)[unfolded ch]])
    fix p
    assume "tw_cost p \<le> budget s" "budget s' = budget s - tw_cost p"
    then show ?case by simp
  qed
qed

lemma loop_state_grid:
  "loop_state s0 (s, U, chs) \<Longrightarrow>
     (grid s q = - 1 \<longleftrightarrow> grid s0 q = - 1) \<and> (grid s q = 0 \<longrightarrow> grid s0 q = 0) \<and>
     (grid s0 q = 1 \<longrightarrow> grid s q = 1)"
proof (induction "(s, U, chs)" arbitrary: s U chs rule: loop_state.induct)
  case loop_start
  then show ?case by simp
next
  case (loop_pass s U chs s' U' ch)
  obtain x y tt where ch: "ch = (x, y, tt)" by (cases ch)
  show ?case
  proof (rule place_towers_iter_fields[OF loop_pass(3)[unfolded ch]])
    fix p
    assume "grid s' = (\<lambda>q. if in_bounds s q \<and> chebyshev q (x, y) \<le> tw_range p \<and> grid s q \<noteq> - 1
                     then 1 else grid s q)"
    then show ?case using loop_pass(2) by auto
  qed
qed

text \<open>Every committed cell was free when the run began, is covered afterwards, and no cell
  is committed twice.\<close>

lemma loop_state_cells:
  "loop_state s0 (s, U, chs) \<Longrightarrow>
     (\<forall>ch \<in> set chs. in_bounds s0 (choice_cell ch) \<and> grid s0 (choice_cell ch) = 0 \<and>
                     grid s (choice_cell ch) \<noteq> 0 \<and> grid s (choice_cell ch) \<noteq> - 1) \<and>
     distinct (map choice_cell chs)"
proof (induction "(s, U, chs)" arbitrary: s U chs rule: loop_state.induct)
  case loop_start
  then show ?case by simp
next
  case (loop_pass s U chs s' U' ch)
  obtain x y tt where ch: "ch = (x, y, tt)" by (cases ch)
  have cc: "choice_cell ch = (x, y)" by (simp add: ch choice_cell_def)
  have ib: "\<And>q. in_bounds s q = in_bounds s0 q"
    using loop_state_in_bounds[OF loop_pass(1)] .
  have g0: "\<And>q. grid s q = 0 \<longrightarrow> grid s0 q = 0"
    using loop_state_grid[OF loop_pass(1)] by blast
  show ?case
  proof (rule place_towers_iter_fields[OF loop_pass(3)[unfolded ch]])
    fix p
    assume f: "in_bounds s (x, y)" "grid s (x, y) = 0" "0 \<le> tw_range p"
      "grid s' = (\<lambda>q. if in_bounds s q \<and> chebyshev q (x, y) \<le> tw_range p \<and> grid s q \<noteq> - 1
                     then 1 else grid s q)"
    have new: "in_bounds s0 (x, y) \<and> grid s0 (x, y) = 0 \<and> grid s' (x, y) \<noteq> 0 \<and> grid s' (x, y) \<noteq> - 1"
      using f ib g0 by (simp add: chebyshev_self)
    have old: "\<forall>c \<in> set chs. in_bounds s0 (choice_cell c) \<and> grid s0 (choice_cell c) = 0 \<and>
                     grid s' (choice_cell c) \<noteq> 0 \<and> grid s' (choice_cell c) \<noteq> - 1"
      using loop_pass(2) f(4) by auto
    have fresh: "(x, y) \<notin> choice_cell ` set chs"
      using loop_pass(2) f(2) by auto
    show ?case using new old fresh loop_pass(2) by (simp add: cc)
  qed
qed

text \<open>A run that returns ends in a loop state from which the next pass leaves the loop.\<close>

lemma loop_result_state:
  "place_towers_loop s U = Inr (final, chs) \<Longrightarrow> loop_state s0 (s, U, pre) \<Longrightarrow>
     \<exists>Uf. loop_state s0 (final, Uf, pre @ chs) \<and> place_towers_iter final Uf = Inr None"
proof (induction s U arbitrary: chs pre rule: place_towers_loop.induct)
  case (1 s U)
  show ?case
  proof (cases "place_towers_iter s U")
    case (Inl e)
    with 1(2) show ?thesis by (simp add: place_towers_loop.simps[of s U])
  next
    case (Inr res)
    show ?thesis
    proof (cases res)
      case None
      with Inr 1(2) have "final = s" "chs = []"
        by (simp_all add: place_towers_loop.simps[of s U])
      with 1(3) Inr None show ?thesis by auto
    next
      case (Some tr)
      obtain s' U' ch where tr: "tr = (s', U', ch)" by (cases tr)
      from 1(2) Inr Some tr obtain chs' where
        rec: "place_towers_loop s' U' = Inr (final, chs')" and chs: "chs = ch # chs'"
        by (auto simp: place_towers_loop.simps[of s U] split: sum.splits)
      have st: "loop_state s0 (s', U', pre @ [ch])"
        using loop_pass[OF 1(3)] Inr Some tr by simp
      from 1(1)[OF Inr Some tr[symmetric] refl rec st] show ?thesis
        by (simp add: chs)
    qed
  qed
qed

lemma place_towers_final:
  assumes "place_towers s0 = Inr (final, chs)"
  shows "\<exists>Uf. loop_state s0 (final, Uf, chs) \<and> place_towers_iter final Uf = Inr None"
  using loop_result_state[OF assms[unfolded place_towers_def] loop_start] by simp

section \<open>Errors of the optimizer\<close>

lemma scan_cells_error:
  "scan_cells s U tt r c cells best = Inl e \<Longrightarrow> e = ZeroDivisionError \<and> c = 0"
  by (induction s U tt r c cells best rule: scan_cells.induct)
     (auto simp: Let_def split: if_splits)

lemma scan_types_error:
  "scan_types s U items best = Inl e \<Longrightarrow>
     e = ZeroDivisionError \<and> (\<exists>(tt, p) \<in> set items. tw_cost p = 0)"
proof (induction s U items best rule: scan_types.induct)
  case (1 s U best)
  then show ?case by simp
next
  case (2 s U tower_type properties items best)
  show ?case
  proof (cases "budget s < tw_cost properties")
    case True
    with 2 show ?thesis by auto
  next
    case False
    show ?thesis
    proof (cases "scan_cells s U tower_type (tw_range properties) (tw_cost properties) (all_cells s) best")
      case (Inl e')
      with 2(3) False have "e' = e" by simp
      with scan_cells_error[OF Inl] show ?thesis by auto
    next
      case (Inr b)
      with 2(3) False have "scan_types s U items b = Inl e" by simp
      from 2(2)[OF False Inr this] show ?thesis by auto
    qed
  qed
qed

text \<open>What one pass does, by the outcome of the scan.\<close>

lemma place_towers_iter_cases:
  assumes "U \<noteq> {}" "0 < budget s"
  shows "(\<forall>e. scan_types s U (DAList.impl_of (tower_types s)) (None, 0) = Inl e \<longrightarrow>
            place_towers_iter s U = Inl e) \<and>
         (\<forall>bv. scan_types s U (DAList.impl_of (tower_types s)) (None, 0) = Inr (None, bv) \<longrightarrow>
            place_towers_iter s U = Inr None) \<and>
         (\<forall>ch bv. scan_types s U (DAList.impl_of (tower_types s)) (None, 0) = Inr (Some ch, bv) \<longrightarrow>
            (\<exists>s' U'. place_towers_iter s U = Inr (Some (s', U', ch))))"
proof (intro conjI allI impI)
  fix e assume "scan_types s U (DAList.impl_of (tower_types s)) (None, 0) = Inl e"
  then show "place_towers_iter s U = Inl e"
    using assms by (simp add: place_towers_iter_def)
next
  fix bv assume "scan_types s U (DAList.impl_of (tower_types s)) (None, 0) = Inr (None, bv)"
  then show "place_towers_iter s U = Inr None"
    using assms by (simp add: place_towers_iter_def)
next
  fix ch bv
  assume sc: "scan_types s U (DAList.impl_of (tower_types s)) (None, 0) = Inr (Some ch, bv)"
  obtain x y tt where ch: "ch = (x, y, tt)" by (cases ch)
  from scan_types_choice[OF sc[unfolded ch]] obtain p where
    p: "DAList.lookup (tower_types s) tt = Some p" "in_bounds s (x, y)" "grid s (x, y) = 0"
    by blast
  have "\<exists>s1. place_tower s x y (tw_range p) = Inr s1"
    using p(3) by (simp add: place_tower_in_bounds[OF p(2)])
  then obtain s1 where "place_tower s x y (tw_range p) = Inr s1" by blast
  then show "\<exists>s' U'. place_towers_iter s U = Inr (Some (s', U', ch))"
    using assms sc p(1) by (simp add: place_towers_iter_def ch)
qed

lemma place_towers_iter_error:
  assumes "place_towers_iter s U = Inl e"
  shows "e = ZeroDivisionError \<and> (\<exists>(tt, p) \<in> set (DAList.impl_of (tower_types s)). tw_cost p = 0)"
proof -
  from assms have c: "U \<noteq> {}" "0 < budget s"
    by (auto simp: place_towers_iter_def split: if_splits)
  show ?thesis
  proof (cases "scan_types s U (DAList.impl_of (tower_types s)) (None, 0)")
    case (Inl e')
    with place_towers_iter_cases[OF c] assms have "e' = e" by simp
    with scan_types_error[OF Inl] show ?thesis by simp
  next
    case (Inr b)
    obtain bc bv where b: "b = (bc, bv)" by (cases b)
    show ?thesis
    proof (cases bc)
      case None
      with place_towers_iter_cases[OF c] Inr b assms show ?thesis by simp
    next
      case (Some ch)
      with place_towers_iter_cases[OF c] Inr b assms show ?thesis by auto
    qed
  qed
qed

lemma place_towers_loop_error:
  "place_towers_loop s U = Inl e \<Longrightarrow>
     e = ZeroDivisionError \<and> (\<exists>(tt, p) \<in> set (DAList.impl_of (tower_types s)). tw_cost p = 0)"
proof (induction s U rule: place_towers_loop.induct)
  case (1 s U)
  show ?case
  proof (cases "place_towers_iter s U")
    case (Inl e')
    with 1(2) have "e' = e" by (simp add: place_towers_loop.simps[of s U])
    with place_towers_iter_error[OF Inl] show ?thesis by simp
  next
    case (Inr res)
    show ?thesis
    proof (cases res)
      case None
      with Inr 1(2) show ?thesis by (simp add: place_towers_loop.simps[of s U])
    next
      case (Some tr)
      obtain s' U' ch where tr: "tr = (s', U', ch)" by (cases tr)
      from 1(2) Inr Some tr have rec: "place_towers_loop s' U' = Inl e"
        by (auto simp: place_towers_loop.simps[of s U] split: sum.splits)
      obtain x y tt where ch: "ch = (x, y, tt)" by (cases ch)
      have tts: "tower_types s' = tower_types s"
        by (rule place_towers_iter_fields[OF Inr[unfolded Some tr ch]])
      from 1(1)[OF Inr Some tr[symmetric] refl rec] tts show ?thesis by simp
    qed
  qed
qed

section \<open>Claims about the optimizer\<close>

lemma candidates_affordable:
  assumes "c \<in> set (candidates s U)"
  shows "cost_of_choice (tower_types s) (fst c) \<le> budget s"
proof -
  obtain x y tt v where c: "c = ((x, y, tt), v)" by (cases c) auto
  from assms[unfolded c candidates_def candidates_of_mem] obtain p where
    p: "(tt, p) \<in> set (DAList.impl_of (tower_types s))" "tw_cost p \<le> budget s" by blast
  from lookup_impl_of[OF p(1)] p(2) show ?thesis
    by (simp add: cost_of_choice_def c)
qed

lemma place_towers_returns:
  assumes "\<forall>(tt, p) \<in> set (DAList.impl_of (tower_types s0)). tw_cost p \<noteq> 0"
  shows "\<exists>final chs. place_towers s0 = Inr (final, chs)"
proof (cases "place_towers s0")
  case (Inl e)
  from place_towers_loop_error[OF Inl[unfolded place_towers_def]] assms show ?thesis by blast
next
  case (Inr res)
  then show ?thesis by (cases res) simp
qed

lemma row5_costs: "\<forall>(tt, p) \<in> set (DAList.impl_of (tower_types row5)). tw_cost p \<noteq> 0"
  by (simp add: row5_def default_tower_types.rep_eq)

lemma row5_run:
  "\<exists>final. place_towers row5 = Inr (final, [(0, 1, ''small''), (0, 3, ''small'')])"
proof -
  have "(case place_towers row5 of Inl e \<Rightarrow> False
         | Inr (final, chs) \<Rightarrow> chs = [(0, 1, ''small''), (0, 3, ''small'')])"
    by code_simp
  then show ?thesis by (auto split: sum.splits)
qed

text \<open>
  C1: when the initial budget is not negative, the remaining budget is not negative at any
  test of the loop, every candidate of a pass costs at most the remaining budget, and when
  \<open>place_towers\<close> returns, the costs of the committed placements sum to at most the initial
  budget (the remaining budget is the initial one less that sum). With a catalog without a
  zero cost, \<open>place_towers\<close> does return.
\<close>

theorem budget_never_exceeded:
  assumes "0 \<le> budget s0"
  shows "(\<forall>s U chs. loop_state s0 (s, U, chs) \<longrightarrow>
            0 \<le> budget s \<and> budget s = budget s0 - spent (tower_types s0) chs \<and>
            (\<forall>c \<in> set (candidates s U). cost_of_choice (tower_types s) (fst c) \<le> budget s)) \<and>
         (\<forall>final chs. place_towers s0 = Inr (final, chs) \<longrightarrow>
            spent (tower_types s0) chs \<le> budget s0 \<and>
            budget final = budget s0 - spent (tower_types s0) chs \<and> 0 \<le> budget final) \<and>
         ((\<forall>(tt, p) \<in> set (DAList.impl_of (tower_types s0)). tw_cost p \<noteq> 0) \<longrightarrow>
            (\<exists>final chs. place_towers s0 = Inr (final, chs)))"
proof (intro conjI allI impI)
  fix s U chs assume st: "loop_state s0 (s, U, chs)"
  show "0 \<le> budget s" using loop_state_budget[OF st assms] .
  show "budget s = budget s0 - spent (tower_types s0) chs"
    using loop_state_account[OF st] by simp
  show "\<forall>c \<in> set (candidates s U). cost_of_choice (tower_types s) (fst c) \<le> budget s"
    using candidates_affordable by blast
next
  fix final chs assume run: "place_towers s0 = Inr (final, chs)"
  from place_towers_final[OF run] obtain Uf where st: "loop_state s0 (final, Uf, chs)" by blast
  have b: "0 \<le> budget final" using loop_state_budget[OF st assms] .
  have a: "budget final = budget s0 - spent (tower_types s0) chs"
    using loop_state_account[OF st] by simp
  show "spent (tower_types s0) chs \<le> budget s0" using a b by simp
  show "budget final = budget s0 - spent (tower_types s0) chs" by (rule a)
  show "0 \<le> budget final" by (rule b)
next
  assume "\<forall>(tt, p) \<in> set (DAList.impl_of (tower_types s0)). tw_cost p \<noteq> 0"
  then show "\<exists>final chs. place_towers s0 = Inr (final, chs)" by (rule place_towers_returns)
qed

theorem budget_never_exceeded_witness:
  "0 \<le> budget row5 \<and>
   (\<exists>final. place_towers row5 = Inr (final, [(0, 1, ''small''), (0, 3, ''small'')]) \<and>
      spent (tower_types row5) [(0, 1, ''small''), (0, 3, ''small'')] \<le> budget row5 \<and>
      budget final = 15 \<and> 0 \<le> budget final)"
proof -
  have h: "0 \<le> budget row5" by (simp add: row5_def)
  from row5_run obtain final where
    run: "place_towers row5 = Inr (final, [(0, 1, ''small''), (0, 3, ''small'')])" by blast
  have sp: "spent (tower_types row5) [(0, 1, ''small''), (0, 3, ''small'')] = 30"
    by (simp add: spent_def cost_of_choice_def row5_def DAList.lookup.rep_eq
                  default_tower_types.rep_eq)
  from budget_never_exceeded[OF h] run
  have "spent (tower_types row5) [(0, 1, ''small''), (0, 3, ''small'')] \<le> budget row5 \<and>
        budget final = budget row5 - spent (tower_types row5) [(0, 1, ''small''), (0, 3, ''small'')] \<and>
        0 \<le> budget final"
    by blast
  then show ?thesis using h run sp by (simp add: row5_def)
qed






lemma candidate_cell_placeable:
  assumes "p \<in> set (candidate_cells s)"
  shows "\<exists>s'. place_tower s (fst p) (snd p) r = Inr s'"
proof -
  from assms have "in_bounds s (fst p, snd p)" "grid s (fst p, snd p) = 0"
    by (simp_all add: set_candidate_cells free_cells_def)
  then show ?thesis by (simp add: place_tower_in_bounds)
qed

text \<open>
  C8: when \<open>place_towers\<close> returns, \<open>towers\<close> is the initial list followed by the committed
  cells, and every committed cell is inside the grid and not obstructed (neither in the
  final grid nor in the initial one). \<open>place_tower\<close> succeeds at every candidate cell,
  whatever the range, so the \<open>ValueError\<close> of line 33 is never raised by the loop: the only
  exception \<open>place_towers\<close> can raise is the \<open>ZeroDivisionError\<close> of a zero cost.
\<close>

theorem placements_never_obstructed:
  "(\<forall>final chs. place_towers s0 = Inr (final, chs) \<longrightarrow>
      towers final = towers s0 @ map choice_cell chs \<and>
      (\<forall>c \<in> set (map choice_cell chs).
          in_bounds final c \<and> grid final c \<noteq> - 1 \<and> grid s0 c \<noteq> - 1)) \<and>
   (\<forall>s U chs. loop_state s0 (s, U, chs) \<longrightarrow>
      (\<forall>p \<in> set (candidate_cells s). \<forall>r. \<exists>s'. place_tower s (fst p) (snd p) r = Inr s') \<and>
      place_towers_iter s U \<noteq> Inl ValueError) \<and>
   (\<forall>e. place_towers s0 = Inl e \<longrightarrow> e = ZeroDivisionError)"
proof (intro conjI allI impI)
  fix final chs assume run: "place_towers s0 = Inr (final, chs)"
  from place_towers_final[OF run] obtain Uf where st: "loop_state s0 (final, Uf, chs)" by blast
  show "towers final = towers s0 @ map choice_cell chs"
    using loop_state_account[OF st] by simp
  show "\<forall>c \<in> set (map choice_cell chs).
          in_bounds final c \<and> grid final c \<noteq> - 1 \<and> grid s0 c \<noteq> - 1"
    using loop_state_cells[OF st] loop_state_in_bounds[OF st] by auto
next
  fix s U chs assume "loop_state s0 (s, U, chs)"
  show "\<forall>p \<in> set (candidate_cells s). \<forall>r. \<exists>s'. place_tower s (fst p) (snd p) r = Inr s'"
    using candidate_cell_placeable by blast
  show "place_towers_iter s U \<noteq> Inl ValueError"
    using place_towers_iter_error[of s U ValueError] by auto
next
  fix e assume "place_towers s0 = Inl e"
  then show "e = ZeroDivisionError"
    using place_towers_loop_error[of s0 "uncovered_init s0" e] by (simp add: place_towers_def)
qed

lemma block6_run:
  "\<exists>final. place_towers block6 = Inr (final, [(0, 1, ''small'')])"
proof -
  have "(case place_towers block6 of Inl e \<Rightarrow> False
         | Inr (final, chs) \<Rightarrow> chs = [(0, 1, ''small'')])"
    by code_simp
  then show ?thesis by (auto split: sum.splits)
qed

theorem placements_never_obstructed_witness:
  "\<exists>final. place_towers block6 = Inr (final, [(0, 1, ''small'')]) \<and>
     towers final = [(0, 1)] \<and> in_bounds final (0, 1) \<and> grid final (0, 1) \<noteq> - 1 \<and>
     grid block6 (0, 1) \<noteq> - 1"
proof -
  from block6_run obtain final where
    run: "place_towers block6 = Inr (final, [(0, 1, ''small'')])" by blast
  from placements_never_obstructed[of block6] run
  have "towers final = towers block6 @ map choice_cell [(0, 1, ''small'')] \<and>
        (\<forall>c \<in> set (map choice_cell [(0, 1, ''small'')]).
            in_bounds final c \<and> grid final c \<noteq> - 1 \<and> grid block6 c \<noteq> - 1)"
    by blast
  then show ?thesis using run by (simp add: choice_cell_def block6_def)
qed

text \<open>
  C10: when \<open>place_towers\<close> returns, the committed cells are pairwise distinct, and so are
  the entries of \<open>towers\<close>, provided the entries the list had before the run were distinct
  and on cells that were not free (the list is empty after \<open>__init__\<close>). Every tower then
  stands on a cell whose entry is not 0.
\<close>

theorem towers_distinct:
  assumes "place_towers s0 = Inr (final, chs)"
    and "distinct (towers s0)" and "\<forall>p \<in> set (towers s0). grid s0 p \<noteq> 0"
  shows "distinct (map choice_cell chs) \<and> distinct (towers final) \<and>
         (\<forall>p \<in> set (towers final). grid final p \<noteq> 0)"
proof -
  from place_towers_final[OF assms(1)] obtain Uf where st: "loop_state s0 (final, Uf, chs)"
    by blast
  note cells = loop_state_cells[OF st]
  have tw: "towers final = towers s0 @ map choice_cell chs"
    using loop_state_account[OF st] by simp
  have disj: "set (towers s0) \<inter> set (map choice_cell chs) = {}"
    using cells assms(3) by auto
  have old: "\<forall>p \<in> set (towers s0). grid final p \<noteq> 0"
    using loop_state_grid[OF st] assms(3) by blast
  have new: "\<forall>p \<in> set (map choice_cell chs). grid final p \<noteq> 0"
    using cells by auto
  show ?thesis
    using cells assms(2) disj old new unfolding tw by auto
qed

theorem towers_distinct_witness:
  "\<exists>final. place_towers row5 = Inr (final, [(0, 1, ''small''), (0, 3, ''small'')]) \<and>
     distinct (towers row5) \<and> (\<forall>p \<in> set (towers row5). grid row5 p \<noteq> 0) \<and>
     distinct (map choice_cell [(0, 1, ''small''), (0, 3, ''small'')]) \<and>
     distinct (towers final) \<and> (\<forall>p \<in> set (towers final). grid final p \<noteq> 0)"
proof -
  from row5_run obtain final where
    run: "place_towers row5 = Inr (final, [(0, 1, ''small''), (0, 3, ''small'')])" by blast
  have h: "distinct (towers row5)" "\<forall>p \<in> set (towers row5). grid row5 p \<noteq> 0"
    by (simp_all add: row5_def)
  from towers_distinct[OF run h] run h show ?thesis by blast
qed

text \<open>
  C2: the scan of one pass, for a catalog without a zero cost, returns the first candidate
  in scan order (tower types in dict order, cells in row-major order) whose value, the
  double \<open>coverage / cost\<close>, is greatest among all candidates, provided that value is
  positive, and nothing when no candidate has a positive value; the pass commits exactly
  that candidate.
\<close>

theorem greedy_choice:
  assumes "\<forall>(tt, p) \<in> set (DAList.impl_of (tower_types s)). tw_cost p \<noteq> 0"
  shows "\<exists>bc bv. scan_types s U (DAList.impl_of (tower_types s)) (None, 0) = Inr (bc, bv) \<and>
           (bc = None \<longrightarrow>
              (\<forall>c \<in> set (candidates s U). snd c \<le> 0) \<and>
              (\<forall>s' U' ch. place_towers_iter s U \<noteq> Inr (Some (s', U', ch)))) \<and>
           (\<forall>ch. bc = Some ch \<longrightarrow>
              (\<exists>k < length (candidates s U).
                  candidates s U ! k = (ch, bv) \<and> 0 < bv \<and>
                  (\<forall>k' < length (candidates s U). snd (candidates s U ! k') \<le> bv) \<and>
                  (\<forall>k' < k. snd (candidates s U ! k') < bv)) \<and>
              (U \<noteq> {} \<and> 0 < budget s \<longrightarrow>
                 (\<exists>s' U'. place_towers_iter s U = Inr (Some (s', U', ch)))))"
proof -
  from scan_types_total[OF assms] obtain best where
    sc: "scan_types s U (DAList.impl_of (tower_types s)) (None, 0) = Inr best" by blast
  obtain bc bv where best: "best = (bc, bv)" by (cases best)
  have pk: "pick (candidates s U) (None, 0) = (bc, bv)"
    using scan_types_pick[OF sc] by (simp add: candidates_def best)
  have none: "bc = None \<longrightarrow>
              (\<forall>c \<in> set (candidates s U). snd c \<le> 0) \<and>
              (\<forall>s' U' ch. place_towers_iter s U \<noteq> Inr (Some (s', U', ch)))"
  proof
    assume None: "bc = None"
    from pick_cases[OF pk] None
    have all_le: "\<forall>k < length (candidates s U). snd (candidates s U ! k) \<le> 0"
      by auto
    have le: "\<forall>c \<in> set (candidates s U). snd c \<le> 0"
    proof
      fix c assume "c \<in> set (candidates s U)"
      then obtain k where "k < length (candidates s U)" "candidates s U ! k = c"
        by (auto simp: in_set_conv_nth)
      with all_le show "snd c \<le> 0" by auto
    qed
    have "\<forall>s' U' ch. place_towers_iter s U \<noteq> Inr (Some (s', U', ch))"
      using sc best None
      by (auto simp: place_towers_iter_def split: if_splits)
    with le show "(\<forall>c \<in> set (candidates s U). snd c \<le> 0) \<and>
              (\<forall>s' U' ch. place_towers_iter s U \<noteq> Inr (Some (s', U', ch)))" by simp
  qed
  have some: "\<forall>ch. bc = Some ch \<longrightarrow>
              (\<exists>k < length (candidates s U).
                  candidates s U ! k = (ch, bv) \<and> 0 < bv \<and>
                  (\<forall>k' < length (candidates s U). snd (candidates s U ! k') \<le> bv) \<and>
                  (\<forall>k' < k. snd (candidates s U ! k') < bv)) \<and>
              (U \<noteq> {} \<and> 0 < budget s \<longrightarrow>
                 (\<exists>s' U'. place_towers_iter s U = Inr (Some (s', U', ch))))"
  proof (intro allI impI)
    fix ch assume Some: "bc = Some ch"
    from pick_cases[OF pk] Some obtain k where
      k: "k < length (candidates s U)" "candidates s U ! k = (ch, bv)" "0 < bv"
         "\<forall>k' < k. snd (candidates s U ! k') < bv"
         "\<forall>k' < length (candidates s U). snd (candidates s U ! k') \<le> bv"
      by auto
    have commit: "U \<noteq> {} \<and> 0 < budget s \<longrightarrow>
                   (\<exists>s' U'. place_towers_iter s U = Inr (Some (s', U', ch)))"
      using place_towers_iter_cases[of U s] sc best Some by blast
    from k commit show "(\<exists>k < length (candidates s U).
                  candidates s U ! k = (ch, bv) \<and> 0 < bv \<and>
                  (\<forall>k' < length (candidates s U). snd (candidates s U ! k') \<le> bv) \<and>
                  (\<forall>k' < k. snd (candidates s U ! k') < bv)) \<and>
              (U \<noteq> {} \<and> 0 < budget s \<longrightarrow>
                 (\<exists>s' U'. place_towers_iter s U = Inr (Some (s', U', ch))))"
      by blast
  qed
  from sc best none some show ?thesis by blast
qed

theorem greedy_choice_witness:
  "map (\<lambda>item. tw_cost (snd item)) (DAList.impl_of (tower_types row5)) = [15, 30, 60] \<and>
   scan_types row5 (uncovered_init row5) (DAList.impl_of (tower_types row5)) (None, 0) =
     Inr (Some (0, 1, ''small''), float_round (3 / 15)) \<and>
   (\<exists>k < length (candidates row5 (uncovered_init row5)).
       candidates row5 (uncovered_init row5) ! k = ((0, 1, ''small''), float_round (3 / 15)) \<and>
       (\<forall>k' < length (candidates row5 (uncovered_init row5)).
           snd (candidates row5 (uncovered_init row5) ! k') \<le> float_round (3 / 15)) \<and>
       (\<forall>k' < k. snd (candidates row5 (uncovered_init row5) ! k') < float_round (3 / 15)))"
proof -
  have ev: "scan_types row5 (uncovered_init row5) (DAList.impl_of (tower_types row5)) (None, 0) =
     Inr (Some (0, 1, ''small''), float_round (3 / 15))"
    by code_simp
  from greedy_choice[OF row5_costs, of "uncovered_init row5"] obtain bc bv where
    r: "scan_types row5 (uncovered_init row5) (DAList.impl_of (tower_types row5)) (None, 0) =
          Inr (bc, bv)"
       "\<forall>ch. bc = Some ch \<longrightarrow>
          (\<exists>k < length (candidates row5 (uncovered_init row5)).
              candidates row5 (uncovered_init row5) ! k = (ch, bv) \<and> 0 < bv \<and>
              (\<forall>k' < length (candidates row5 (uncovered_init row5)).
                  snd (candidates row5 (uncovered_init row5) ! k') \<le> bv) \<and>
              (\<forall>k' < k. snd (candidates row5 (uncovered_init row5) ! k') < bv))"
    by blast
  from r(1) ev have e: "bc = Some (0, 1, ''small'')" "bv = float_round (3 / 15)"
    by (simp_all only: sum.inject prod.inject)
  from r(2) e have "\<exists>k < length (candidates row5 (uncovered_init row5)).
       candidates row5 (uncovered_init row5) ! k = ((0, 1, ''small''), float_round (3 / 15)) \<and>
       (\<forall>k' < length (candidates row5 (uncovered_init row5)).
           snd (candidates row5 (uncovered_init row5) ! k') \<le> float_round (3 / 15)) \<and>
       (\<forall>k' < k. snd (candidates row5 (uncovered_init row5) ! k') < float_round (3 / 15))"
    by blast
  moreover have "map (\<lambda>item. tw_cost (snd item)) (DAList.impl_of (tower_types row5)) = [15, 30, 60]"
    by (simp add: row5_def default_tower_types.rep_eq)
  ultimately show ?thesis using ev by blast
qed

section \<open>The graph that \<open>find_shortest_path\<close> builds\<close>

lemma nbrs_of_graph_append:
  "nbrs_of (graph_append k v g) x =
     (if x = k \<and> map_of g k \<noteq> None then insert v (nbrs_of g x) else nbrs_of g x)"
  by (auto simp: nbrs_of_def graph_append_def AList.map_of_map_entry split: option.splits)

lemma keys_graph_append: "fst ` set (graph_append k v g) = fst ` set g"
  by (simp add: graph_append_def AList.dom_map_entry)

lemma map_of_None_keys: "map_of g x = None \<longleftrightarrow> x \<notin> fst ` set g"
  by (simp add: map_of_eq_None_iff)

lemma keys_link: "fst ` set (link r a b g) = fst ` set g"
  by (simp add: link_def keys_graph_append)

lemma nbrs_of_link:
  assumes "a \<in> fst ` set g" "b \<in> fst ` set g"
  shows "nbrs_of (link r a b g) x =
           nbrs_of g x \<union> {y. is_within_range a b r \<and> ((x = a \<and> y = b) \<or> (x = b \<and> y = a))}"
proof -
  have a: "map_of g a \<noteq> None" using assms(1) by (simp add: map_of_None_keys)
  have b: "map_of (graph_append a b g) b \<noteq> None"
    using assms(2) by (simp add: map_of_None_keys keys_graph_append)
  show ?thesis
    unfolding link_def using a b by (auto simp: nbrs_of_graph_append)
qed

lemma keys_fold_link: "fst ` set (fold (link r a) rest g) = fst ` set g"
  by (induction rest arbitrary: g) (simp_all add: keys_link)

lemma nbrs_of_fold_link:
  assumes "a \<in> fst ` set g" "set rest \<subseteq> fst ` set g"
  shows "nbrs_of (fold (link r a) rest g) x =
           nbrs_of g x \<union>
           {y. (x = a \<and> y \<in> set rest \<and> is_within_range a y r) \<or>
               (y = a \<and> x \<in> set rest \<and> is_within_range a x r)}"
  using assms
proof (induction rest arbitrary: g)
  case Nil
  then show ?case by simp
next
  case (Cons b rest)
  have k: "a \<in> fst ` set (link r a b g)" "set rest \<subseteq> fst ` set (link r a b g)"
    using Cons.prems by (simp_all add: keys_link)
  have b: "b \<in> fst ` set g" using Cons.prems by simp
  show ?case
    unfolding fold_simps Cons.IH[OF k] nbrs_of_link[OF Cons.prems(1) b]
    by auto
qed

lemma keys_add_edges: "fst ` set (add_edges r ts g) = fst ` set g"
  by (induction ts arbitrary: g) (simp_all add: keys_fold_link)

lemma later_pairs_iff:
  "(a, b) \<in> later_pairs ts \<longleftrightarrow> (\<exists>i j. i < j \<and> j < length ts \<and> ts ! i = a \<and> ts ! j = b)"
proof (induction ts)
  case Nil
  then show ?case by simp
next
  case (Cons t rest)
  show ?case
  proof
    assume "(a, b) \<in> later_pairs (t # rest)"
    then consider "a = t" "b \<in> set rest" | "(a, b) \<in> later_pairs rest" by auto
    then show "\<exists>i j. i < j \<and> j < length (t # rest) \<and> (t # rest) ! i = a \<and> (t # rest) ! j = b"
    proof cases
      case 1
      then obtain j where "j < length rest" "rest ! j = b" by (auto simp: in_set_conv_nth)
      with 1 show ?thesis by (intro exI[of _ 0] exI[of _ "Suc j"]) simp
    next
      case 2
      with Cons.IH obtain i j where "i < j" "j < length rest" "rest ! i = a" "rest ! j = b"
        by blast
      then show ?thesis by (intro exI[of _ "Suc i"] exI[of _ "Suc j"]) simp
    qed
  next
    assume "\<exists>i j. i < j \<and> j < length (t # rest) \<and> (t # rest) ! i = a \<and> (t # rest) ! j = b"
    then obtain i j where ij: "i < j" "j < length (t # rest)" "(t # rest) ! i = a" "(t # rest) ! j = b"
      by blast
    from ij(1) obtain j' where j': "j = Suc j'" by (cases j) auto
    show "(a, b) \<in> later_pairs (t # rest)"
    proof (cases i)
      case 0
      with ij j' show ?thesis by auto
    next
      case (Suc i')
      with ij j' have "i' < j'" "j' < length rest" "rest ! i' = a" "rest ! j' = b" by auto
      with Cons.IH have "(a, b) \<in> later_pairs rest" by blast
      then show ?thesis by simp
    qed
  qed
qed

lemma nbrs_of_add_edges:
  assumes "set ts \<subseteq> fst ` set g"
  shows "nbrs_of (add_edges r ts g) x =
           nbrs_of g x \<union>
           {y. ((x, y) \<in> later_pairs ts \<and> is_within_range x y r) \<or>
               ((y, x) \<in> later_pairs ts \<and> is_within_range y x r)}"
  using assms
proof (induction ts arbitrary: g)
  case Nil
  then show ?case by simp
next
  case (Cons t rest)
  have t: "t \<in> fst ` set g" and rest: "set rest \<subseteq> fst ` set g"
    using Cons.prems by simp_all
  have k: "set rest \<subseteq> fst ` set (fold (link r t) rest g)"
    using rest by (simp add: keys_fold_link)
  show ?case
    unfolding add_edges.simps Cons.IH[OF k] nbrs_of_fold_link[OF t rest]
    by auto
qed

lemma keys_init: "fst ` set (fold (\<lambda>tower g. AList.update tower [] g) ts g) = set ts \<union> fst ` set g"
  by (induction ts arbitrary: g) (auto simp: AList.dom_update)

lemma nbrs_of_init:
  "nbrs_of g x = {} \<Longrightarrow> nbrs_of (fold (\<lambda>tower g. AList.update tower [] g) ts g) x = {}"
proof (induction ts arbitrary: g)
  case Nil
  then show ?case by simp
next
  case (Cons t ts)
  have "nbrs_of (AList.update t [] g) x = {}"
    using Cons.prems by (simp add: nbrs_of_def AList.update_conv')
  from Cons.IH[OF this] show ?case by simp
qed

lemma build_graph_keys: "fst ` set (build_graph ts r) = set ts"
  by (simp add: build_graph_def keys_add_edges keys_init)

lemma is_within_range_chebyshev: "is_within_range a b r \<longleftrightarrow> chebyshev a b \<le> r"
  by (auto simp: is_within_range_def chebyshev_def)

lemma chebyshev_commute: "chebyshev a b = chebyshev b a"
  by (simp add: chebyshev_def abs_minus_commute)

lemma adjacent_later_pairs:
  "adjacent ts r a b \<longleftrightarrow>
     ((a, b) \<in> later_pairs ts \<or> (b, a) \<in> later_pairs ts) \<and> chebyshev a b \<le> r"
proof -
  have "(\<exists>i j. i < length ts \<and> j < length ts \<and> i \<noteq> j \<and> ts ! i = a \<and> ts ! j = b) \<longleftrightarrow>
        (\<exists>i j. i < j \<and> j < length ts \<and> ts ! i = a \<and> ts ! j = b) \<or>
        (\<exists>i j. i < j \<and> j < length ts \<and> ts ! i = b \<and> ts ! j = a)"
    (is "?L \<longleftrightarrow> ?R1 \<or> ?R2")
  proof
    assume ?L
    then obtain i j where ij: "i < length ts" "j < length ts" "i \<noteq> j" "ts ! i = a" "ts ! j = b"
      by blast
    show "?R1 \<or> ?R2"
    proof (cases "i < j")
      case True
      with ij show ?thesis by blast
    next
      case False
      with ij have "j < i" by simp
      with ij show ?thesis by blast
    qed
  next
    assume "?R1 \<or> ?R2"
    then show ?L
    proof
      assume ?R1
      then obtain i j where "i < j" "j < length ts" "ts ! i = a" "ts ! j = b" by blast
      then show ?L by (intro exI[of _ i] exI[of _ j]) simp
    next
      assume ?R2
      then obtain i j where "i < j" "j < length ts" "ts ! i = b" "ts ! j = a" by blast
      then show ?L by (intro exI[of _ j] exI[of _ i]) simp
    qed
  qed
  then show ?thesis
    unfolding adjacent_def later_pairs_iff by simp
qed

text \<open>The neighbour lists of the built graph are the adjacency relation of the
  specification.\<close>

lemma build_graph_nbrs: "nbrs_of (build_graph ts r) x = {y. adjacent ts r x y}"
proof -
  have k: "set ts \<subseteq> fst ` set (fold (\<lambda>tower g. AList.update tower [] g) ts [])"
    by (simp add: keys_init)
  have e: "nbrs_of (fold (\<lambda>tower g. AList.update tower [] g) ts []) x = {}"
    by (rule nbrs_of_init) (simp add: nbrs_of_def)
  show ?thesis
    unfolding build_graph_def nbrs_of_add_edges[OF k] e adjacent_later_pairs
      is_within_range_chebyshev
    using chebyshev_commute[of x] by auto
qed

lemma adjacent_towers: "adjacent ts r a b \<Longrightarrow> a \<in> set ts \<and> b \<in> set ts"
  by (auto simp: adjacent_def)

section \<open>Breadth-first search\<close>

lemma walk_nonempty: "walk E p \<Longrightarrow> p \<noteq> []"
  by (cases p) auto

lemma walk_snoc: "p \<noteq> [] \<Longrightarrow> walk E (p @ [w]) \<longleftrightarrow> walk E p \<and> E (last p) w"
  by (induction E p rule: walk.induct) auto

lemma walk_nth: "walk E p \<Longrightarrow> Suc i < length p \<Longrightarrow> E (p ! i) (p ! Suc i)"
proof (induction E p arbitrary: i rule: walk.induct)
  case (3 E a b ps)
  then show ?case by (cases i) auto
qed auto

lemma visit_neighbors_char:
  "\<exists>new. visit_neighbors path nbrs visited queue =
           (visited \<union> set nbrs, queue @ map (\<lambda>w. (w, path @ [w])) new) \<and>
         set new = set nbrs - visited"
proof (induction path nbrs visited queue rule: visit_neighbors.induct)
  case (1 path visited queue)
  show ?case by (intro exI[of _ "[]"]) simp
next
  case (2 path neighbor nbrs visited queue)
  show ?case
  proof (cases "neighbor \<in> visited")
    case True
    with 2(2) obtain new where
      n: "visit_neighbors path nbrs visited queue =
            (visited \<union> set nbrs, queue @ map (\<lambda>w. (w, path @ [w])) new)"
         "set new = set nbrs - visited" by auto
    from True have "visited \<union> set (neighbor # nbrs) = visited \<union> set nbrs" by auto
    with n True show ?thesis by (intro exI[of _ new]) auto
  next
    case False
    with 2(1) obtain new where
      n: "visit_neighbors path nbrs (insert neighbor visited) (queue @ [(neighbor, path @ [neighbor])]) =
            (insert neighbor visited \<union> set nbrs,
             (queue @ [(neighbor, path @ [neighbor])]) @ map (\<lambda>w. (w, path @ [w])) new)"
         "set new = set nbrs - insert neighbor visited" by auto
    show ?thesis
      using n False by (intro exI[of _ "neighbor # new"]) auto
  qed
qed

lemma bfs_inv_init: "bfs_inv g start {} [(start, [start])]"
proof -
  have far: "w \<in> {}"
    if a: "w \<noteq> start \<and> walk_from_to (edge g) start w p' \<and> length p' \<le> length [start]"
    for w :: cell and p'
  proof -
    from a have "p' \<noteq> []" by (auto simp: walk_from_to_def dest: walk_nonempty)
    with a obtain x where "p' = [x]" by (cases p') auto
    with a show ?thesis by (auto simp: walk_from_to_def)
  qed
  have 1: "\<forall>(u, p) \<in> set [(start, [start])]. walk_from_to (edge g) start u p"
    by (simp add: walk_from_to_def)
  have 5: "[(start, [start])] \<noteq> [] \<longrightarrow>
        (\<forall>w p'. w \<noteq> start \<and> walk_from_to (edge g) start w p' \<and>
                length p' \<le> length (snd (hd [(start, [start])])) \<longrightarrow> w \<in> {})"
  proof (intro impI allI)
    fix w :: cell and p'
    assume "w \<noteq> start \<and> walk_from_to (edge g) start w p' \<and>
                length p' \<le> length (snd (hd [(start, [start])]))"
    then have "w \<noteq> start \<and> walk_from_to (edge g) start w p' \<and> length p' \<le> length [start]"
      by simp
    from far[OF this] show "w \<in> {}" .
  qed
  show ?thesis
    unfolding bfs_inv_def using 1 5 by simp
qed

lemma bfs_inv_step:
  assumes inv: "bfs_inv g start visited ((u, p) # rest)"
    and nb: "map_of g u = Some nbrs"
    and vn: "visit_neighbors p nbrs visited rest = (visited', queue')"
  shows "bfs_inv g start visited' queue'"
proof -
  let ?W = "walk_from_to (edge g) start"
  from visit_neighbors_char[of p nbrs visited rest] obtain new where
    c: "visit_neighbors p nbrs visited rest =
          (visited \<union> set nbrs, rest @ map (\<lambda>w. (w, p @ [w])) new)" and
    new: "set new = set nbrs - visited"
    by blast
  from c vn have v': "visited' = visited \<union> set nbrs" and
    q': "queue' = rest @ map (\<lambda>w. (w, p @ [w])) new"
    by simp_all
  have nbrs: "nbrs_of g u = set nbrs" using nb by (simp add: nbrs_of_def)
  have mem: "\<And>e. e \<in> set queue' \<longleftrightarrow> e \<in> set rest \<or> (\<exists>w \<in> set new. e = (w, p @ [w]))"
    unfolding q' by auto
  from inv have I1: "\<forall>(x, px) \<in> set ((u, p) # rest). ?W x px"
    unfolding bfs_inv_def by (elim conjE)
  from inv have I2a: "sorted (map (\<lambda>e. length (snd e)) ((u, p) # rest))"
    unfolding bfs_inv_def by (elim conjE)
  from inv have I2b: "\<forall>e \<in> set ((u, p) # rest). length (snd e) \<le> Suc (length p)"
    unfolding bfs_inv_def by simp
  from inv have I3: "\<forall>(x, px) \<in> set ((u, p) # rest). x \<noteq> start \<longrightarrow>
         (\<forall>p'. ?W x p' \<longrightarrow> length px \<le> length p')"
    unfolding bfs_inv_def by (elim conjE)
  from inv have I4: "\<forall>x \<in> insert start visited.
         (\<exists>px. (x, px) \<in> set ((u, p) # rest) \<and> (x = start \<longrightarrow> px = [start])) \<or>
         nbrs_of g x \<subseteq> visited"
    unfolding bfs_inv_def by (elim conjE)
  from inv have I5: "\<forall>w p'. w \<noteq> start \<and> ?W w p' \<and> length p' \<le> length p \<longrightarrow> w \<in> visited"
    unfolding bfs_inv_def by simp
  have Wp: "?W u p" using I1 by simp
  then have pne: "p \<noteq> []" and hdp: "hd p = start" and lastp: "last p = u"
    and wp: "walk (edge g) p"
    by (auto simp: walk_from_to_def dest: walk_nonempty)
  have rest_ge: "\<forall>e \<in> set rest. length p \<le> length (snd e)"
    using I2a by auto
  have rest_le: "\<forall>e \<in> set rest. length (snd e) \<le> Suc (length p)"
    using I2b by simp
  have all_ge: "\<forall>e \<in> set queue'. length p \<le> length (snd e)"
    using rest_ge by (auto simp: mem)
  have all_le: "\<forall>e \<in> set queue'. length (snd e) \<le> Suc (length p)"
    using rest_le by (auto simp: mem)
  have N1: "\<forall>(x, px) \<in> set queue'. ?W x px"
  proof -
    have "?W w (p @ [w])" if "w \<in> set new" for w
    proof -
      from that new nbrs have "edge g u w" by (simp add: edge_def)
      then show ?thesis
        using wp pne hdp lastp by (simp add: walk_from_to_def walk_snoc)
    qed
    then show ?thesis using I1 by (auto simp: mem)
  qed
  have N2a: "sorted (map (\<lambda>e. length (snd e)) queue')"
  proof -
    have "map (\<lambda>e. length (snd e)) (map (\<lambda>w. (w, p @ [w])) new) =
          replicate (length new) (Suc (length p))"
      by (simp add: map_replicate_const o_def)
    moreover have "sorted (map (\<lambda>e. length (snd e)) rest)" using I2a by simp
    ultimately show ?thesis
      unfolding q' using rest_le by (auto simp: sorted_append)
  qed
  have N2b: "\<forall>e \<in> set queue'. length (snd e) \<le> Suc (length (snd (hd queue')))"
  proof
    fix e assume e: "e \<in> set queue'"
    then have "queue' \<noteq> []" by auto
    then have "hd queue' \<in> set queue'" by simp
    with all_ge have "length p \<le> length (snd (hd queue'))" by blast
    with all_le e show "length (snd e) \<le> Suc (length (snd (hd queue')))" by fastforce
  qed
  have N3: "\<forall>(x, px) \<in> set queue'. x \<noteq> start \<longrightarrow>
         (\<forall>p'. ?W x p' \<longrightarrow> length px \<le> length p')"
  proof (intro ballI)
    fix e assume e: "e \<in> set queue'"
    obtain x px where ex: "e = (x, px)" by (cases e)
    have "length px \<le> length p'" if w: "x \<noteq> start" "?W x p'" for p'
    proof (cases "e \<in> set rest")
      case True
      with I3 ex w show ?thesis by fastforce
    next
      case False
      with e ex have xn: "x \<in> set new" and px: "px = p @ [x]" by (auto simp: mem)
      show ?thesis
      proof (rule ccontr)
        assume "\<not> length px \<le> length p'"
        then have "length p' \<le> length p" by (simp add: px)
        with I5 w have "x \<in> visited" by blast
        with xn new show False by simp
      qed
    qed
    then show "case e of (x, px) \<Rightarrow> x \<noteq> start \<longrightarrow>
         (\<forall>p'. ?W x p' \<longrightarrow> length px \<le> length p')"
      by (simp add: ex)
  qed
  have N4: "\<forall>x \<in> insert start visited'.
         (\<exists>px. (x, px) \<in> set queue' \<and> (x = start \<longrightarrow> px = [start])) \<or>
         nbrs_of g x \<subseteq> visited'"
  proof
    fix x assume x: "x \<in> insert start visited'"
    show "(\<exists>px. (x, px) \<in> set queue' \<and> (x = start \<longrightarrow> px = [start])) \<or> nbrs_of g x \<subseteq> visited'"
    proof (cases "x \<in> insert start visited")
      case True
      with I4 consider px where "(x, px) \<in> set ((u, p) # rest)" "x = start \<longrightarrow> px = [start]"
        | "nbrs_of g x \<subseteq> visited" by blast
      then show ?thesis
      proof cases
        case 1
        show ?thesis
        proof (cases "(x, px) = (u, p)")
          case True
          then have "nbrs_of g x \<subseteq> visited'" using nbrs v' by simp
          then show ?thesis by simp
        next
          case False
          with 1 have "(x, px) \<in> set queue'" by (auto simp: mem)
          with 1(2) show ?thesis by blast
        qed
      next
        case 2
        then show ?thesis using v' by auto
      qed
    next
      case False
      with x v' have "x \<in> set new" "x \<noteq> start" using new by auto
      then have "(x, p @ [x]) \<in> set queue'" by (simp add: mem)
      with \<open>x \<noteq> start\<close> show ?thesis by blast
    qed
  qed
  have N5: "queue' \<noteq> [] \<longrightarrow>
        (\<forall>w p'. w \<noteq> start \<and> ?W w p' \<and> length p' \<le> length (snd (hd queue')) \<longrightarrow> w \<in> visited')"
  proof (intro impI allI)
    fix w p'
    assume ne: "queue' \<noteq> []"
      and a: "w \<noteq> start \<and> ?W w p' \<and> length p' \<le> length (snd (hd queue'))"
    from ne have hd_in: "hd queue' \<in> set queue'" by simp
    show "w \<in> visited'"
    proof (cases "length p' \<le> length p")
      case True
      with I5 a have "w \<in> visited" by blast
      then show ?thesis using v' by simp
    next
      case False
      with a all_le hd_in have len: "length p' = Suc (length p)"
        and hd_len: "length (snd (hd queue')) = Suc (length p)"
        by fastforce+
      have min_hd: "\<forall>e \<in> set queue'. length (snd (hd queue')) \<le> length (snd e)"
      proof -
        from ne obtain h tl where q: "queue' = h # tl" by (cases queue') auto
        with N2a show ?thesis by auto
      qed
      from a have wlk: "walk (edge g) p'" "hd p' = start" "last p' = w"
        by (simp_all add: walk_from_to_def)
      from len pne have two: "2 \<le> length p'" by (cases p) auto
      then obtain p'' z where p': "p' = p'' @ [z]"
        by (cases p' rule: rev_cases) auto
      with two have p''ne: "p'' \<noteq> []" by auto
      from wlk(3) p' have z: "z = w" by simp
      from wlk(1) p' p''ne z have w'': "walk (edge g) p''" and e: "edge g (last p'') w"
        by (simp_all add: walk_snoc)
      let ?x = "last p''"
      have Wx: "?W ?x p''" using w'' wlk(2) p' p''ne by (simp add: walk_from_to_def)
      have len'': "length p'' = length p" using len p' by simp
      have "?x \<in> insert start visited"
      proof (cases "?x = start")
        case True
        then show ?thesis by simp
      next
        case False
        from len'' have "length p'' \<le> length p" by simp
        with I5 Wx False have "?x \<in> visited" by blast
        then show ?thesis by simp
      qed
      then have "?x \<in> insert start visited'" using v' by auto
      with N4 consider px where "(?x, px) \<in> set queue'" "?x = start \<longrightarrow> px = [start]"
        | "nbrs_of g ?x \<subseteq> visited'" by blast
      then show ?thesis
      proof cases
        case 1
        from min_hd 1(1) hd_len have lpx: "Suc (length p) \<le> length px" by fastforce
        show ?thesis
        proof (cases "?x = start")
          case True
          with 1(2) have "length px = 1" by simp
          with lpx pne show ?thesis by (cases p) auto
        next
          case False
          with N3 1(1) Wx have "length px \<le> length p''" by blast
          with lpx len'' show ?thesis by simp
        qed
      next
        case 2
        with e show ?thesis by (auto simp: edge_def)
      qed
    qed
  qed
  show ?thesis
    unfolding bfs_inv_def using N1 N2a N2b N3 N4 N5 by blast
qed

lemma bfs_loop_shortest:
  "bfs_loop g e visited queue = Inr (Some path) \<Longrightarrow> bfs_inv g start visited queue \<Longrightarrow>
   e \<noteq> start \<Longrightarrow>
   walk_from_to (edge g) start e path \<and>
   (\<forall>p'. walk_from_to (edge g) start e p' \<longrightarrow> length path \<le> length p')"
proof (induction g e visited queue rule: bfs_loop.induct)
  case (1 g end_tower visited)
  then show ?case by (simp add: bfs_loop.simps)
next
  case (2 g end_tower visited current p queue)
  show ?case
  proof (cases "current = end_tower")
    case True
    with 2(2) have path: "path = p" by (simp add: bfs_loop.simps)
    from 2(3) have "walk_from_to (edge g) start current p"
      and "current \<noteq> start \<longrightarrow>
             (\<forall>p'. walk_from_to (edge g) start current p' \<longrightarrow> length p \<le> length p')"
      unfolding bfs_inv_def by auto
    with True 2(4) path show ?thesis by simp
  next
    case False
    with 2(2) obtain nbrs where nb: "map_of g current = Some nbrs"
      by (auto simp: bfs_loop.simps split: option.splits)
    obtain visited' queue' where vn: "visit_neighbors p nbrs visited queue = (visited', queue')"
      by (cases "visit_neighbors p nbrs visited queue")
    from 2(2) False nb vn have rec: "bfs_loop g end_tower visited' queue' = Inr (Some path)"
      by (simp add: bfs_loop.simps)
    from 2(1)[OF False nb vn[symmetric] rec bfs_inv_step[OF 2(3) nb vn] 2(4)]
    show ?thesis .
  qed
qed

lemma bfs_loop_no_error:
  "bfs_loop g e visited queue = Inl err \<Longrightarrow> \<forall>x. nbrs_of g x \<subseteq> fst ` set g \<Longrightarrow>
   fst ` set queue \<subseteq> fst ` set g \<Longrightarrow> False"
proof (induction g e visited queue rule: bfs_loop.induct)
  case (1 g end_tower visited)
  then show ?case by (simp add: bfs_loop.simps)
next
  case (2 g end_tower visited current p queue)
  from 2(2) have ne: "current \<noteq> end_tower"
    by (auto simp: bfs_loop.simps split: if_splits)
  from 2(4) have "current \<in> fst ` set g" by simp
  then obtain nbrs where nb: "map_of g current = Some nbrs"
    by (cases "map_of g current") (auto simp: map_of_None_keys)
  obtain visited' queue' where vn: "visit_neighbors p nbrs visited queue = (visited', queue')"
    by (cases "visit_neighbors p nbrs visited queue")
  from 2(2) ne nb vn have rec: "bfs_loop g end_tower visited' queue' = Inl err"
    by (simp add: bfs_loop.simps)
  from visit_neighbors_char[of p nbrs visited queue] vn obtain new where
    q': "queue' = queue @ map (\<lambda>w. (w, p @ [w])) new" and new: "set new = set nbrs - visited"
    by auto
  have "set nbrs \<subseteq> fst ` set g"
    using 2(3)[rule_format, of current] nb by (simp add: nbrs_of_def)
  with new have "set new \<subseteq> fst ` set g" by auto
  then have "fst ` set queue' \<subseteq> fst ` set g"
    unfolding q' using 2(4) by (auto simp: image_Un image_image)
  from 2(1)[OF ne nb vn[symmetric] rec 2(3) this] show ?case .
qed

lemma edge_build_graph: "edge (build_graph ts r) = adjacent ts r"
  by (simp add: edge_def build_graph_nbrs fun_eq_iff)

lemma walk_end_tower:
  assumes "walk_from_to (adjacent ts r) a b p" "a \<in> set ts"
  shows "b \<in> set ts"
proof (cases p rule: rev_cases)
  case Nil
  with assms show ?thesis by (simp add: walk_from_to_def)
next
  case (snoc q z)
  show ?thesis
  proof (cases "q = []")
    case True
    with snoc assms show ?thesis by (auto simp: walk_from_to_def)
  next
    case False
    with snoc assms(1) have "adjacent ts r (last q) z" "z = b"
      by (auto simp: walk_from_to_def walk_snoc)
    then show ?thesis using adjacent_towers by blast
  qed
qed

lemma walk_stays:
  "walk E p \<Longrightarrow> hd p \<in> A \<Longrightarrow> (\<And>x y. x \<in> A \<Longrightarrow> E x y \<Longrightarrow> y \<in> A) \<Longrightarrow> last p \<in> A"
proof (induction E p rule: walk.induct)
  case (3 E a b ps)
  from 3(2) have "E a b" "walk E (b # ps)" by simp_all
  moreover from 3(3) have "a \<in> A" by simp
  ultimately have "hd (b # ps) \<in> A" using 3(4) by simp
  from 3(1)[OF \<open>walk E (b # ps)\<close> this 3(4)] show ?case by simp
qed auto

lemma find_shortest_path_self: "breadth_first g P P = Inr (Some [P])"
  by (simp add: breadth_first_def bfs_loop.simps)

lemma find_shortest_path_shortest:
  assumes "find_shortest_path s start e r = Inr (Some path)"
  shows "walk_from_to (adjacent (towers s) r) start e path \<and>
         (\<forall>p'. walk_from_to (adjacent (towers s) r) start e p' \<longrightarrow> length path \<le> length p')"
proof (cases "e = start")
  case True
  with assms have path: "path = [start]"
    by (simp add: find_shortest_path_def find_shortest_path_self)
  have "length path \<le> length p'" if "walk_from_to (adjacent (towers s) r) start e p'" for p'
  proof -
    from that have "p' \<noteq> []" by (auto simp: walk_from_to_def dest: walk_nonempty)
    then show ?thesis by (cases p') (simp_all add: path)
  qed
  with True path show ?thesis by (simp add: walk_from_to_def)
next
  case False
  from assms have "bfs_loop (build_graph (towers s) r) e {} [(start, [start])] = Inr (Some path)"
    by (simp add: find_shortest_path_def breadth_first_def)
  from bfs_loop_shortest[OF this bfs_inv_init False]
  show ?thesis by (simp add: edge_build_graph)
qed

lemma find_shortest_path_no_error:
  assumes "start \<in> set (towers s)"
  shows "find_shortest_path s start e r \<noteq> Inl err"
proof
  assume "find_shortest_path s start e r = Inl err"
  then have b: "bfs_loop (build_graph (towers s) r) e {} [(start, [start])] = Inl err"
    by (simp add: find_shortest_path_def breadth_first_def)
  have c: "\<forall>x. nbrs_of (build_graph (towers s) r) x \<subseteq> fst ` set (build_graph (towers s) r)"
    using adjacent_towers by (auto simp: build_graph_nbrs build_graph_keys)
  have q: "fst ` set [(start, [start])] \<subseteq> fst ` set (build_graph (towers s) r)"
    using assms by (simp add: build_graph_keys)
  from bfs_loop_no_error[OF b c q] show False .
qed

section \<open>Claims about the path finder\<close>

lemma example_not_found:
  "breadth_first (build_graph [(0, 0), (1, 1), (5, 5)] 2) (0, 0) (5, 5) = Inr None"
  by code_simp

lemma example_found:
  "breadth_first (build_graph [(0, 0), (1, 1), (5, 5)] 2) (0, 0) (1, 1) =
     Inr (Some [(0, 0), (1, 1)])"
  by code_simp

text \<open>
  C5: a path that \<open>find_shortest_path\<close> returns starts at \<open>start\<close>, ends at \<open>end\<close>, has every
  consecutive pair adjacent (two placements at different positions of \<open>towers\<close>, within
  Chebyshev distance \<open>r\<close>), and no walk from \<open>start\<close> to \<open>end\<close> in the adjacency graph has
  fewer nodes, that is, fewer edges. For the placements \<open>(0,0)\<close>, \<open>(1,1)\<close>, \<open>(5,5)\<close> and
  \<open>r = 2\<close>, the query from \<open>(0,0)\<close> to \<open>(5,5)\<close> returns \<open>None\<close> and the query from \<open>(0,0)\<close> to
  \<open>(1,1)\<close> returns \<open>[(0,0), (1,1)]\<close>.
\<close>

theorem shortest_path_correct:
  "(find_shortest_path s start e r = Inr (Some path) \<longrightarrow>
      path \<noteq> [] \<and> hd path = start \<and> last path = e \<and>
      (\<forall>i. Suc i < length path \<longrightarrow>
           adjacent (towers s) r (path ! i) (path ! Suc i) \<and>
           chebyshev (path ! i) (path ! Suc i) \<le> r) \<and>
      (\<forall>p'. walk_from_to (adjacent (towers s) r) start e p' \<longrightarrow> length path \<le> length p')) \<and>
   (towers s = [(0, 0), (1, 1), (5, 5)] \<longrightarrow>
      find_shortest_path s (0, 0) (5, 5) 2 = Inr None \<and>
      find_shortest_path s (0, 0) (1, 1) 2 = Inr (Some [(0, 0), (1, 1)]))"
proof (intro conjI impI)
  assume run: "find_shortest_path s start e r = Inr (Some path)"
  from find_shortest_path_shortest[OF run]
  have w: "walk_from_to (adjacent (towers s) r) start e path"
    and m: "\<forall>p'. walk_from_to (adjacent (towers s) r) start e p' \<longrightarrow> length path \<le> length p'"
    by simp_all
  from w show "path \<noteq> []" by (auto simp: walk_from_to_def dest: walk_nonempty)
  from w show "hd path = start" by (simp add: walk_from_to_def)
  from w show "last path = e" by (simp add: walk_from_to_def)
  from w have wk: "walk (adjacent (towers s) r) path" by (simp add: walk_from_to_def)
  show "\<forall>i. Suc i < length path \<longrightarrow>
           adjacent (towers s) r (path ! i) (path ! Suc i) \<and>
           chebyshev (path ! i) (path ! Suc i) \<le> r"
    using walk_nth[OF wk] by (auto simp: adjacent_def)
  from m show "\<forall>p'. walk_from_to (adjacent (towers s) r) start e p' \<longrightarrow> length path \<le> length p'" .
next
  assume "towers s = [(0, 0), (1, 1), (5, 5)]"
  then show "find_shortest_path s (0, 0) (5, 5) 2 = Inr None"
    by (simp add: find_shortest_path_def example_not_found)
next
  assume "towers s = [(0, 0), (1, 1), (5, 5)]"
  then show "find_shortest_path s (0, 0) (1, 1) 2 = Inr (Some [(0, 0), (1, 1)])"
    by (simp add: find_shortest_path_def example_found)
qed

theorem shortest_path_correct_witness:
  "find_shortest_path three_towers (0, 0) (1, 1) 2 = Inr (Some [(0, 0), (1, 1)]) \<and>
   adjacent (towers three_towers) 2 (0, 0) (1, 1) \<and> chebyshev (0, 0) (1, 1) \<le> 2 \<and>
   \<not> walk_from_to (adjacent (towers three_towers) 2) (0, 0) (1, 1) [(0, 0)] \<and>
   find_shortest_path three_towers (0, 0) (5, 5) 2 = Inr None"
proof -
  have t: "towers three_towers = [(0, 0), (1, 1), (5, 5)]" by (simp add: three_towers_def)
  note sp = shortest_path_correct[of three_towers "(0, 0)" "(1, 1)" 2 "[(0, 0), (1, 1)]"]
  from sp t have run: "find_shortest_path three_towers (0, 0) (1, 1) 2 = Inr (Some [(0, 0), (1, 1)])"
    and nf: "find_shortest_path three_towers (0, 0) (5, 5) 2 = Inr None"
    by blast+
  from sp run have adj: "\<forall>i. Suc i < length [(0, 0), (1, 1) :: cell] \<longrightarrow>
           adjacent (towers three_towers) 2 ([(0, 0), (1, 1)] ! i) ([(0, 0), (1, 1)] ! Suc i) \<and>
           chebyshev ([(0, 0), (1, 1)] ! i) ([(0, 0), (1, 1)] ! Suc i) \<le> 2"
    and mn: "\<forall>p'. walk_from_to (adjacent (towers three_towers) 2) (0, 0) (1, 1) p' \<longrightarrow>
                length [(0, 0), (1, 1) :: cell] \<le> length p'"
    by blast+
  from adj[rule_format, of 0]
  have a: "adjacent (towers three_towers) 2 (0, 0) (1, 1) \<and> chebyshev (0, 0) (1, 1) \<le> 2"
    by simp
  from mn[rule_format, of "[(0, 0)]"]
  have b: "\<not> walk_from_to (adjacent (towers three_towers) 2) (0, 0) (1, 1) [(0, 0)]"
    by auto
  from run nf a b show ?thesis by blast
qed

text \<open>
  C6, as stated: the result is \<open>None\<close>, without an exception, whenever either endpoint is
  not a placement. With the placements \<open>(0,0)\<close>, \<open>(1,1)\<close>, \<open>(5,5)\<close>, a query whose start
  \<open>(9,9)\<close> is not a placement raises \<open>KeyError\<close> at line 140 when the end differs from
  it, and returns the path \<open>[(9,9)]\<close> when the end is \<open>(9,9)\<close> too.
\<close>

theorem unknown_start_counterexample:
  "(9, 9) \<notin> set (towers three_towers) \<and>
   find_shortest_path three_towers (9, 9) (0, 0) 2 = Inl KeyError \<and>
   find_shortest_path three_towers (9, 9) (9, 9) 2 = Inr (Some [(9, 9)])"
proof -
  have "breadth_first (build_graph [(0, 0), (1, 1), (5, 5)] 2) (9, 9) (0, 0) = Inl KeyError"
    by code_simp
  then show ?thesis
    by (simp add: find_shortest_path_def three_towers_def find_shortest_path_self)
qed

text \<open>
  C6, amended: when \<open>start\<close> is a placement, \<open>find_shortest_path\<close> raises nothing, and it
  returns \<open>None\<close> whenever \<open>end\<close> is unreachable from \<open>start\<close> in the adjacency graph, in
  particular whenever \<open>end\<close> is not a placement.
\<close>

theorem unreachable_not_found:
  assumes "start \<in> set (towers s)"
  shows "(\<forall>err. find_shortest_path s start e r \<noteq> Inl err) \<and>
         (\<not> (\<exists>p. walk_from_to (adjacent (towers s) r) start e p) \<longrightarrow>
            find_shortest_path s start e r = Inr None) \<and>
         (e \<notin> set (towers s) \<longrightarrow> find_shortest_path s start e r = Inr None)"
proof -
  have ne: "\<forall>err. find_shortest_path s start e r \<noteq> Inl err"
    using find_shortest_path_no_error[OF assms] by blast
  have un: "find_shortest_path s start e r = Inr None"
    if "\<not> (\<exists>p. walk_from_to (adjacent (towers s) r) start e p)"
  proof (cases "find_shortest_path s start e r")
    case (Inl err)
    with ne show ?thesis by blast
  next
    case (Inr res)
    show ?thesis
    proof (cases res)
      case None
      with Inr show ?thesis by simp
    next
      case (Some path)
      with Inr find_shortest_path_shortest[of s start e r path] that show ?thesis by blast
    qed
  qed
  have "\<not> (\<exists>p. walk_from_to (adjacent (towers s) r) start e p)" if "e \<notin> set (towers s)"
    using walk_end_tower[OF _ assms] that by blast
  with ne un show ?thesis by blast
qed

theorem unreachable_not_found_witness:
  "(0, 0) \<in> set (towers three_towers) \<and>
   \<not> (\<exists>p. walk_from_to (adjacent (towers three_towers) 2) (0, 0) (5, 5) p) \<and>
   find_shortest_path three_towers (0, 0) (5, 5) 2 = Inr None \<and>
   (9, 9) \<notin> set (towers three_towers) \<and>
   find_shortest_path three_towers (0, 0) (9, 9) 2 = Inr None"
proof -
  have st: "(0, 0) \<in> set (towers three_towers)" and en: "(9, 9) \<notin> set (towers three_towers)"
    by (simp_all add: three_towers_def)
  have far: "\<not> (\<exists>p. walk_from_to (adjacent (towers three_towers) 2) (0, 0) (5, 5) p)"
  proof
    assume "\<exists>p. walk_from_to (adjacent (towers three_towers) 2) (0, 0) (5, 5) p"
    then obtain p where p: "walk (adjacent (towers three_towers) 2) p" "hd p = (0, 0)"
      "last p = (5, 5)" by (auto simp: walk_from_to_def)
    have closed: "y \<in> {(0, 0), (1, 1)}"
      if "x \<in> {(0, 0), (1, 1)}" "adjacent (towers three_towers) 2 x y" for x y :: cell
    proof -
      from that(2) have "y \<in> set (towers three_towers)" and "chebyshev x y \<le> 2"
        using adjacent_towers by (auto simp: adjacent_def)
      with that(1) show ?thesis
        by (auto simp: three_towers_def chebyshev_def)
    qed
    have "last p \<in> {(0, 0), (1, 1) :: cell}"
      by (rule walk_stays[OF p(1)]) (use p(2) closed in auto)
    with p(3) show False by simp
  qed
  from unreachable_not_found[OF st, of "(5, 5)" 2] far
  have a: "find_shortest_path three_towers (0, 0) (5, 5) 2 = Inr None" by blast
  from unreachable_not_found[OF st, of "(9, 9)" 2] en
  have b: "find_shortest_path three_towers (0, 0) (9, 9) 2 = Inr None" by blast
  from st en far a b show ?thesis by blast
qed

text \<open>
  C9: for every node \<open>P\<close> and every \<open>r\<close>, a query from \<open>P\<close> to \<open>P\<close> returns \<open>[P]\<close>. The first
  pass of the loop dequeues \<open>(P, [P])\<close> and returns at line 138 before \<open>graph[current]\<close> is
  read: the result is the same for every graph, also for one in which \<open>P\<close> is not a key,
  and whatever the rest of the queue and the visited set are.
\<close>

theorem self_path:
  "find_shortest_path s P P r = Inr (Some [P]) \<and>
   breadth_first g P P = Inr (Some [P]) \<and>
   bfs_loop g P visited ((P, [P]) # queue) = Inr (Some [P])"
  by (simp add: find_shortest_path_def find_shortest_path_self bfs_loop.simps)

theorem self_path_witness:
  "find_shortest_path three_towers (1, 1) (1, 1) 0 = Inr (Some [(1, 1)]) \<and>
   find_shortest_path three_towers (9, 9) (9, 9) 2 = Inr (Some [(9, 9)]) \<and>
   breadth_first [] (9, 9) (9, 9) = Inr (Some [(9, 9)])"
  using self_path[of three_towers "(1, 1)" 0 "[]" "{}" "[]"]
    self_path[of three_towers "(9, 9)" 2 "[]" "{}" "[]"] by simp

end
